theory Spec2Isabelle
  imports Complex_Main "HOL-Library.AList" "HOL-Library.Sublist"
begin

section \<open>The statistics tree of \<^verbatim>\<open>section_profiler.hpp\<close>\<close>

text \<open>
  The header keeps one process-wide table \<^verbatim>\<open>root\<close> of \<^verbatim>\<open>Stats\<close> nodes, each node owning
  a table of child nodes, and one stack of open \<^verbatim>\<open>SectionProfiler\<close> objects per thread.

  Modelling decisions, fixed here for the whole development:
  \<^item> a \<^verbatim>\<open>double\<close> is a \<open>real\<close>. In the model of the tree the arithmetic on durations is
    exact; this is used for the properties that do not depend on the recorded values
    (which node, which stack, which line of the report). The rounding of the
    statistics is modelled in a section of its own below, and the properties of the
    sums, the average and the variance are stated there. Overflow and NaN are outside
    the model.
    The one non-finite value the code itself writes is the initial \<^verbatim>\<open>+infinity\<close> of
    \<^verbatim>\<open>min_time\<close>, so that field ranges over the reals extended by \<open>Infinity\<close>.
  \<^item> \<^verbatim>\<open>size_t call_count\<close> is a \<open>nat\<close>: the counter is taken not to wrap.
  \<^item> \<^verbatim>\<open>std::unordered_map<std::string, Stats>\<close> is an association list. Its iteration
    order is not fixed by the container; the list order stands for whatever order one
    iteration of the container gives, and no theorem depends on it.
  \<^item> a \<^verbatim>\<open>Stats*\<close> is the path of keys from the root table to the node. The container
    never erases an element and keeps references to its elements stable, so a path
    names one node for as long as the node exists.
\<close>

subsection \<open>\<^verbatim>\<open>struct Stats\<close>\<close>

datatype xdouble = Finite real | Infinity

datatype Stats =
  Stats (total_time: real) (call_count: nat) (min_time: xdouble) (max_time: real)
        (sum_squares: real) (children: "(string \<times> Stats) list")

type_synonym stats_map = "(string \<times> Stats) list"

type_synonym stats_ptr = "string list"

text \<open>The default member initialisers of \<^verbatim>\<open>Stats\<close> (lines 57 to 62).\<close>

definition Stats_default :: Stats where
  "Stats_default = Stats 0 0 Infinity 0 0 []"

text \<open>\<^verbatim>\<open>std::min(a, b)\<close> is \<^verbatim>\<open>(b < a) ? b : a\<close>, here with \<open>a\<close> the stored minimum.\<close>

fun std_min :: "xdouble \<Rightarrow> real \<Rightarrow> xdouble" where
  "std_min Infinity b = Finite b"
| "std_min (Finite a) b = (if b < a then Finite b else Finite a)"

text \<open>\<^verbatim>\<open>std::max(a, b)\<close> is \<^verbatim>\<open>(a < b) ? b : a\<close>.\<close>

definition std_max :: "real \<Rightarrow> real \<Rightarrow> real" where
  "std_max a b = (if a < b then b else a)"

text \<open>The statistics update of the destructor (lines 39 to 43) on one node.\<close>

definition record_duration :: "Stats \<Rightarrow> real \<Rightarrow> Stats" where
  "record_duration st duration =
     Stats (total_time st + duration)
           (call_count st + 1)
           (std_min (min_time st) duration)
           (std_max (max_time st) duration)
           (sum_squares st + duration * duration)
           (children st)"

text \<open>Folding a sequence of durations into a node, first duration first.\<close>

definition record_all :: "Stats \<Rightarrow> real list \<Rightarrow> Stats" where
  "record_all st ds = foldl record_duration st ds"

subsection \<open>Pointers into the tree\<close>

text \<open>
  \<^verbatim>\<open>m[k]\<close> on an \<^verbatim>\<open>unordered_map\<close>: the element under \<open>k\<close>, default-constructed and
  inserted first when the key is absent. The function returns the container after
  the call; the element is then found under \<open>k\<close>.
\<close>

definition subscript :: "stats_map \<Rightarrow> string \<Rightarrow> stats_map" where
  "subscript m k = (case map_of m k of None \<Rightarrow> m @ [(k, Stats_default)] | Some _ \<Rightarrow> m)"

definition children_update :: "(stats_map \<Rightarrow> stats_map) \<Rightarrow> Stats \<Rightarrow> Stats" where
  "children_update g st =
     Stats (total_time st) (call_count st) (min_time st) (max_time st) (sum_squares st)
           (g (children st))"

text \<open>
  Reading through a \<^verbatim>\<open>Stats*\<close>. A path that names no node is a dangling pointer,
  which the source never dereferences; the model answers \<open>None\<close>.
\<close>

fun deref :: "stats_map \<Rightarrow> stats_ptr \<Rightarrow> Stats option" where
  "deref m [] = None"
| "deref m [k] = map_of m k"
| "deref m (k # k' # ks) =
     (case map_of m k of None \<Rightarrow> None | Some st \<Rightarrow> deref (children st) (k' # ks))"

text \<open>Writing through a \<^verbatim>\<open>Stats*\<close>: the node under the path is replaced by \<open>f\<close> of it.\<close>

fun modify_at :: "stats_ptr \<Rightarrow> (Stats \<Rightarrow> Stats) \<Rightarrow> stats_map \<Rightarrow> stats_map" where
  "modify_at [] f m = m"
| "modify_at [k] f m = AList.map_entry k f m"
| "modify_at (k # k' # ks) f m =
     AList.map_entry k (children_update (modify_at (k' # ks) f)) m"

subsection \<open>\<^verbatim>\<open>class SectionProfiler\<close>\<close>

record SectionProfiler =
  name :: string
  start :: real
  parent_stats :: "stats_ptr option"
  current_stats :: stats_ptr

text \<open>
  What an entry point does to the mutex and to the shared tree, in program order.
  The trace is the model's record of these effects; it is not data of the program.
\<close>

datatype event = Lock nat | Unlock nat | TreeAccess nat

text \<open>
  The process state: \<^verbatim>\<open>get_root_stats()\<close>, the \<^verbatim>\<open>thread_local\<close> stack of
  \<^verbatim>\<open>active_stack()\<close> for every thread (threads are numbered), and the trace.
  The stack holds \<^verbatim>\<open>SectionProfiler*\<close>; an object never changes after its
  construction, so the model stacks the objects themselves, top first.
\<close>

record profiler =
  root_stats :: stats_map
  active_stack :: "nat \<Rightarrow> SectionProfiler list"
  trace :: "event list"

definition profiler_init :: profiler where
  "profiler_init = \<lparr>root_stats = [], active_stack = (\<lambda>_. []), trace = []\<rparr>"

text \<open>
  Lines 23 to 27: the node of the section under its parent, created when absent.
  The result is the pointer to the node and the tree after the call. Going through
  a parent pointer that names no node is undefined in the source: the model answers
  \<open>None\<close>.
\<close>

definition resolve :: "stats_ptr option \<Rightarrow> string \<Rightarrow> stats_map \<Rightarrow> (stats_ptr \<times> stats_map) option" where
  "resolve parent nm m =
     (case parent of
        Some p \<Rightarrow>
          (case deref m p of
             None \<Rightarrow> None
           | Some _ \<Rightarrow> Some (p @ [nm], modify_at p (children_update (\<lambda>ch. subscript ch nm)) m))
      | None \<Rightarrow> Some ([nm], subscript m nm))"

text \<open>
  The constructor (lines 17 to 30), run by thread \<open>tid\<close> when the clock reads \<open>now\<close>.
  It takes no lock: its only event is the access to the tree.
\<close>

definition SectionProfiler_ctor ::
  "nat \<Rightarrow> string \<Rightarrow> real \<Rightarrow> profiler \<Rightarrow> (SectionProfiler \<times> profiler) option" where
  "SectionProfiler_ctor tid section_name now s =
     (let parent = (case active_stack s tid of [] \<Rightarrow> None | x # _ \<Rightarrow> Some (current_stats x))
      in case resolve parent section_name (root_stats s) of
           None \<Rightarrow> None
         | Some (cur, m) \<Rightarrow>
             (let this = \<lparr>name = section_name, start = now,
                          parent_stats = parent, current_stats = cur\<rparr>
              in Some (this,
                   s\<lparr>root_stats := m,
                     active_stack := (active_stack s)(tid := this # active_stack s tid),
                     trace := trace s @ [TreeAccess tid]\<rparr>)))"

text \<open>
  The destructor (lines 32 to 46) of the object \<open>this\<close>, run by thread \<open>tid\<close> when
  the clock reads \<open>end_time\<close>. Popping an empty stack and writing through a dangling
  pointer are undefined in the source: the model answers \<open>None\<close>.
\<close>

definition SectionProfiler_dtor ::
  "nat \<Rightarrow> SectionProfiler \<Rightarrow> real \<Rightarrow> profiler \<Rightarrow> profiler option" where
  "SectionProfiler_dtor tid this end_time s =
     (let duration = end_time - start this
      in case deref (root_stats s) (current_stats this) of
           None \<Rightarrow> None
         | Some _ \<Rightarrow>
             (case active_stack s tid of
                [] \<Rightarrow> None
              | _ # rest \<Rightarrow>
                  Some (s\<lparr>root_stats :=
                            modify_at (current_stats this)
                              (\<lambda>st. record_duration st duration) (root_stats s),
                          active_stack := (active_stack s)(tid := rest),
                          trace := trace s @ [Lock tid, TreeAccess tid, Unlock tid]\<rparr>)))"

subsection \<open>The report\<close>

text \<open>
  One printed line, as the values streamed at lines 93 to 98; widths and number
  formatting are left out.
\<close>

record row =
  row_indent :: string
  row_name :: string
  row_total :: real
  row_avg :: real
  row_min :: real
  row_max :: real
  row_stddev :: real
  row_pct :: real

text \<open>Lines 88 to 91 and the conditional of line 95.\<close>

definition avg_of :: "Stats \<Rightarrow> real" where
  "avg_of stats = (if call_count stats \<noteq> 0 then total_time stats / real (call_count stats) else 0)"

definition variance_of :: "Stats \<Rightarrow> real" where
  "variance_of stats =
     (if call_count stats \<noteq> 0
      then sum_squares stats / real (call_count stats) - avg_of stats * avg_of stats
      else 0)"

definition stddev_of :: "Stats \<Rightarrow> real" where
  "stddev_of stats = sqrt (std_max 0 (variance_of stats))"

definition pct_of :: "Stats \<Rightarrow> real \<Rightarrow> real" where
  "pct_of stats parent_time =
     (if parent_time > 0 then (total_time stats / parent_time) * 100 else 100)"

definition min_shown :: "Stats \<Rightarrow> real" where
  "min_shown stats = (case min_time stats of Infinity \<Rightarrow> 0 | Finite m \<Rightarrow> m)"

definition stat_line :: "string \<Rightarrow> string \<Rightarrow> Stats \<Rightarrow> real \<Rightarrow> row" where
  "stat_line indent nm stats parent_time =
     \<lparr>row_indent = indent, row_name = nm, row_total = total_time stats,
      row_avg = avg_of stats, row_min = min_shown stats, row_max = max_time stats,
      row_stddev = stddev_of stats, row_pct = pct_of stats parent_time\<rparr>"

fun print_stats :: "stats_map \<Rightarrow> string \<Rightarrow> real \<Rightarrow> row list" where
  "print_stats [] indent parent_time = []"
| "print_stats ((nm, Stats tt cc mn mx ss ch) # rest) indent parent_time =
     stat_line indent nm (Stats tt cc mn mx ss ch) parent_time
     # (if ch \<noteq> [] then print_stats ch (indent @ ''  '') tt else [])
     @ print_stats rest indent parent_time"

datatype out_line = Text string | Line row

definition report :: "nat \<Rightarrow> profiler \<Rightarrow> out_line list \<times> profiler" where
  "report tid s =
     (Text (CHR 0x0A # ''=== Profiling Report ==='' @ [CHR 0x0A])
        # map Line (print_stats (root_stats s) [] 0)
        @ [Text (''========================'' @ [CHR 0x0A])],
      s\<lparr>trace := trace s @ [Lock tid, TreeAccess tid, Unlock tid]\<rparr>)"

subsection \<open>The lock discipline\<close>

text \<open>
  Walking a trace with the holder of the mutex: \<open>None\<close> as result is a violation
  (an access to the tree by a thread that does not hold the mutex, or a lock
  operation that does not fit the holder), otherwise the holder at the end.
\<close>

fun holder_after :: "nat option \<Rightarrow> event list \<Rightarrow> nat option option" where
  "holder_after h [] = Some h"
| "holder_after h (Lock t # es) = (if h = None then holder_after (Some t) es else None)"
| "holder_after h (Unlock t # es) = (if h = Some t then holder_after None es else None)"
| "holder_after h (TreeAccess t # es) = (if h = Some t then holder_after h es else None)"

definition lock_disciplined :: "event list \<Rightarrow> bool" where
  "lock_disciplined es = (holder_after None es = Some None)"

subsection \<open>Scoped use\<close>

text \<open>
  \<^verbatim>\<open>PROFILE_SECTION\<close> declares the profiler as a local object, so its constructor runs
  where the declaration stands and its destructor when the enclosing block is left,
  by falling off its end or by an exception passing through. \<open>Scope nm t0 t1 body\<close> is
  such a block on one thread: the declaration (the clock reads \<open>t0\<close>), the rest of the
  block, the destructor (the clock reads \<open>t1\<close>). \<open>Throw\<close> raises an exception and
  \<open>TryCatch\<close> is a block that catches whatever its body raises. The flag of the result
  says whether an exception is propagating.
\<close>

datatype stmt = Scope string real real "stmt list" | Throw | TryCatch "stmt list"

fun run_stmt :: "nat \<Rightarrow> stmt \<Rightarrow> profiler \<Rightarrow> (bool \<times> profiler) option"
  and run_block :: "nat \<Rightarrow> stmt list \<Rightarrow> profiler \<Rightarrow> (bool \<times> profiler) option" where
  "run_stmt tid (Scope nm t0 t1 body) s =
     (case SectionProfiler_ctor tid nm t0 s of
        None \<Rightarrow> None
      | Some (this, s1) \<Rightarrow>
          (case run_block tid body s1 of
             None \<Rightarrow> None
           | Some (thrown, s2) \<Rightarrow>
               (case SectionProfiler_dtor tid this t1 s2 of
                  None \<Rightarrow> None
                | Some s3 \<Rightarrow> Some (thrown, s3))))"
| "run_stmt tid Throw s = Some (True, s)"
| "run_stmt tid (TryCatch body) s =
     (case run_block tid body s of None \<Rightarrow> None | Some (_, s') \<Rightarrow> Some (False, s'))"
| "run_block tid [] s = Some (False, s)"
| "run_block tid (c # cs) s =
     (case run_stmt tid c s of
        None \<Rightarrow> None
      | Some (thrown, s') \<Rightarrow> if thrown then Some (True, s') else run_block tid cs s')"

text \<open>
  The states the entry points can produce, in any order and on any threads. A
  destructor may run for any object here, which is more than scoped use allows.
\<close>

inductive reachable :: "profiler \<Rightarrow> bool" where
  reach_init: "reachable profiler_init"
| reach_ctor: "reachable s \<Longrightarrow> SectionProfiler_ctor tid nm now s = Some (this, s') \<Longrightarrow> reachable s'"
| reach_dtor: "reachable s \<Longrightarrow> SectionProfiler_dtor tid this end_time s = Some s' \<Longrightarrow> reachable s'"
| reach_report: "reachable s \<Longrightarrow> report tid s = (out, s') \<Longrightarrow> reachable s'"

section \<open>The statistics in binary64 arithmetic\<close>

text \<open>
  The tree model above adds and multiplies durations as real numbers. Which node a
  profiler records into, which stack it is on and which line the report prints do not
  depend on the recorded values, and for these the exact update is all that is needed.
  The values themselves are \<^verbatim>\<open>double\<close>s: what the code stores after lines 39 to 43,
  and what it prints from lines 88 to 90, is the rounded result of each operation.
  This section models these lines a second time, with every operation rounded.

  \<^item> \<open>fl x\<close> is the binary64 number nearest to \<open>x\<close>, a tie going to the even
    significand (the default rounding of IEEE 754): \<open>x\<close> is scaled by the power of
    two that brings its magnitude into the interval from \<open>2 ^ 52\<close> up to \<open>2 ^ 53\<close>, rounded to an integer, and
    scaled back. The exponent range is not bounded, so overflow to infinity, gradual
    underflow and NaN are outside the model; durations in milliseconds and their
    squares are far from both ends of the range.
  \<^item> A duration is a \<^verbatim>\<open>double\<close>; that a real \<open>d\<close> is one is \<open>fl d = d\<close>.
  \<^item> A compiler may contract a product and the sum or difference it feeds into one
    fused operation, which rounds once instead of twice. Two expressions of the
    source have this shape: \<^verbatim>\<open>sum_squares += duration * duration\<close> on line 43
    and \<^verbatim>\<open>(stats.sum_squares / stats.call_count) - (avg * avg)\<close> on line 89. Each is
    modelled both ways, selected by a flag that is \<open>True\<close> for the fused evaluation.
  \<^item> The conversion of \<^verbatim>\<open>call_count\<close> to \<^verbatim>\<open>double\<close> on lines 88 and 89 is exact
    below \<open>2 ^ 53\<close> calls and is taken to be exact.
\<close>

subsection \<open>Rounding to nearest, ties to even\<close>

text \<open>The integer nearest to \<open>x\<close>, the even one of the two when \<open>x\<close> lies halfway.\<close>

definition round_even :: "real \<Rightarrow> int" where
  "round_even x =
     (let f = \<lfloor>x\<rfloor>; r = x - of_int f
      in if r < 1 / 2 then f else if 1 / 2 < r then f + 1 else if even f then f else f + 1)"

definition pow2 :: "int \<Rightarrow> real" where
  "pow2 k = 2 powr of_int k"

text \<open>
  For \<open>x \<noteq> 0\<close> with exponent \<open>e\<close>, the integer part of the binary logarithm of its
  magnitude, neighbouring binary64 numbers around \<open>x\<close> are \<open>pow2 (e - 52)\<close> apart.
\<close>

definition fl :: "real \<Rightarrow> real" where
  "fl x =
     (if x = 0 then 0
      else let ulp = pow2 (\<lfloor>log 2 \<bar>x\<bar>\<rfloor> - 52)
           in of_int (round_even (x / ulp)) * ulp)"

text \<open>The unit roundoff of binary64: half the distance from \<open>1\<close> to the next number.\<close>

definition unit_roundoff :: real where
  "unit_roundoff = 1 / 2 ^ 53"

subsection \<open>Lines 39 to 43 and 88 to 90, rounded\<close>

text \<open>
  The update of the destructor. \<^verbatim>\<open>+=\<close> rounds the sum; \<^verbatim>\<open>std::min\<close> and \<^verbatim>\<open>std::max\<close>
  select one of their arguments and do not round; the counter is an integer.
\<close>

definition record_double :: "bool \<Rightarrow> Stats \<Rightarrow> real \<Rightarrow> Stats" where
  "record_double fused st duration =
     Stats (fl (total_time st + duration))
           (call_count st + 1)
           (std_min (min_time st) duration)
           (std_max (max_time st) duration)
           (if fused then fl (sum_squares st + duration * duration)
            else fl (sum_squares st + fl (duration * duration)))
           (children st)"

definition record_all_double :: "bool \<Rightarrow> Stats \<Rightarrow> real list \<Rightarrow> Stats" where
  "record_all_double fused st ds = foldl (record_double fused) st ds"

text \<open>
  Lines 88 to 90 of \<^verbatim>\<open>print_stats\<close>: the average, the variance and the standard
  deviation. \<^verbatim>\<open>std::sqrt\<close> is correctly rounded.
\<close>

definition avg_double :: "Stats \<Rightarrow> real" where
  "avg_double stats =
     (if call_count stats \<noteq> 0 then fl (total_time stats / real (call_count stats)) else 0)"

definition variance_double :: "bool \<Rightarrow> Stats \<Rightarrow> real" where
  "variance_double fused stats =
     (if call_count stats \<noteq> 0
      then (if fused
            then fl (fl (sum_squares stats / real (call_count stats))
                     - avg_double stats * avg_double stats)
            else fl (fl (sum_squares stats / real (call_count stats))
                     - fl (avg_double stats * avg_double stats)))
      else 0)"

definition stddev_double :: "bool \<Rightarrow> Stats \<Rightarrow> real" where
  "stddev_double fused stats = fl (sqrt (std_max 0 (variance_double fused stats)))"

section \<open>What the properties are stated with\<close>

text \<open>
  The five statistics of a node, and the keys of its child table. A pointer to a
  node reads the whole subtree below it; these two views read the node itself.
\<close>

definition scalars :: "Stats \<Rightarrow> real \<times> nat \<times> xdouble \<times> real \<times> real" where
  "scalars st = (total_time st, call_count st, min_time st, max_time st, sum_squares st)"

definition child_keys :: "Stats \<Rightarrow> string list" where
  "child_keys st = map fst (children st)"

text \<open>A view of a node that ignores what lies below the node's child table.\<close>

definition shallow :: "(Stats \<Rightarrow> 'a) \<Rightarrow> bool" where
  "shallow \<phi> = (\<forall>r f st. \<phi> (children_update (modify_at r f) st) = \<phi> st)"

text \<open>Comparing the stored minimum, which may be \<open>Infinity\<close>, with a real.\<close>

definition min_le :: "xdouble \<Rightarrow> real \<Rightarrow> bool" where
  "min_le x r = (case x of Infinity \<Rightarrow> False | Finite m \<Rightarrow> m \<le> r)"

text \<open>
  The invariant of the data model: for a node with recorded calls the average lies
  between the minimum and the maximum, and the variance is not negative.
\<close>

definition node_invariant :: "Stats \<Rightarrow> bool" where
  "node_invariant st =
     (call_count st > 0 \<longrightarrow>
        min_le (min_time st) (total_time st / real (call_count st))
        \<and> total_time st / real (call_count st) \<le> max_time st
        \<and> 0 \<le> sum_squares st / real (call_count st)
                - (total_time st / real (call_count st))\<^sup>2)"

text \<open>
  The same, together with what holds of a node without recorded calls: its
  statistics are the initial ones. This is what one update step preserves.
\<close>

definition stats_ok :: "Stats \<Rightarrow> bool" where
  "stats_ok st =
     (if call_count st = 0
      then total_time st = 0 \<and> min_time st = Infinity \<and> max_time st = 0 \<and> sum_squares st = 0
      else min_le (min_time st) (total_time st / real (call_count st))
        \<and> total_time st / real (call_count st) \<le> max_time st
        \<and> 0 \<le> sum_squares st / real (call_count st)
                - (total_time st / real (call_count st))\<^sup>2)"

text \<open>
  Every object on a stack points to a node of the tree: no open profiler holds a
  dangling pointer.
\<close>

definition ptrs_valid :: "profiler \<Rightarrow> bool" where
  "ptrs_valid s =
     (\<forall>tid. \<forall>x \<in> set (active_stack s tid). deref (root_stats s) (current_stats x) \<noteq> None)"

text \<open>
  No table of the tree holds two nodes under one name, as the container guarantees.
\<close>

definition distinct_keys :: "stats_map \<Rightarrow> bool" where
  "distinct_keys m =
     (distinct (map fst m) \<and> (\<forall>p st. deref m p = Some st \<longrightarrow> distinct (child_keys st)))"

text \<open>
  The baseline a node is rendered against: \<^verbatim>\<open>report\<close> passes \<^verbatim>\<open>0.0\<close> for the nodes of
  the root table, which have no parent; \<^verbatim>\<open>print_stats\<close> passes the total of the parent
  to the nodes of a child table.
\<close>

definition baseline_of :: "Stats option \<Rightarrow> real" where
  "baseline_of parent = (case parent of None \<Rightarrow> 0 | Some pst \<Rightarrow> total_time pst)"

text \<open>The indentation \<open>d\<close> levels below the root table.\<close>

definition spaces :: "nat \<Rightarrow> string" where
  "spaces d = concat (replicate d ''  '')"

text \<open>
  \<open>occurs m parent d nm st parent'\<close>: the node \<open>st\<close> stands under the name \<open>nm\<close> in a
  table \<open>d\<close> levels below the table \<open>m\<close>, and \<open>parent'\<close> is the node that owns that
  table (\<open>parent\<close>, the owner of \<open>m\<close>, when \<open>d = 0\<close>).
\<close>

inductive occurs :: "stats_map \<Rightarrow> Stats option \<Rightarrow> nat \<Rightarrow> string \<Rightarrow> Stats \<Rightarrow> Stats option \<Rightarrow> bool" where
  occurs_here: "(nm, st) \<in> set m \<Longrightarrow> occurs m parent 0 nm st parent"
| occurs_below: "(k, pst) \<in> set m \<Longrightarrow> occurs (children pst) (Some pst) d nm st parent'
                 \<Longrightarrow> occurs m parent (Suc d) nm st parent'"

text \<open>
  \<open>later s s'\<close>: the process gets from the state \<open>s\<close> to the state \<open>s'\<close> by running
  entry points, in any order and on any threads.
\<close>

inductive later :: "profiler \<Rightarrow> profiler \<Rightarrow> bool" where
  later_refl: "later s s"
| later_ctor: "later s s1 \<Longrightarrow> SectionProfiler_ctor tid nm now s1 = Some (this, s2) \<Longrightarrow> later s s2"
| later_dtor: "later s s1 \<Longrightarrow> SectionProfiler_dtor tid this end_time s1 = Some s2 \<Longrightarrow> later s s2"
| later_report: "later s s1 \<Longrightarrow> report tid s1 = (out, s2) \<Longrightarrow> later s s2"

text \<open>
  The example of the specification: \<^verbatim>\<open>outer\<close> (10 ms) around two runs of \<^verbatim>\<open>inner\<close>
  (5 ms each), on thread 0. This is the state after the run.
\<close>

definition example_nested :: profiler where
  "example_nested =
     \<lparr>root_stats =
        [(''outer'', Stats 10 1 (Finite 10) 10 100 [(''inner'', Stats 10 2 (Finite 5) 5 50 [])])],
      active_stack = (\<lambda>_. []),
      trace = [TreeAccess 0, TreeAccess 0, Lock 0, TreeAccess 0, Unlock 0,
               TreeAccess 0, Lock 0, TreeAccess 0, Unlock 0, Lock 0, TreeAccess 0, Unlock 0]\<rparr>"

text \<open>The state after \<^verbatim>\<open>SectionProfiler("a")\<close> on thread 0, the object still open.\<close>

definition example_open :: profiler where
  "example_open =
     \<lparr>root_stats = [(''a'', Stats_default)],
      active_stack = (\<lambda>_. [])(0 := [\<lparr>name = ''a'', start = 0, parent_stats = None,
                                      current_stats = [''a'']\<rparr>]),
      trace = [TreeAccess 0]\<rparr>"

text \<open>The state after that object has been destroyed at time 3.\<close>

definition example_flat :: profiler where
  "example_flat =
     \<lparr>root_stats = [(''a'', Stats 3 1 (Finite 3) 3 9 [])],
      active_stack = (\<lambda>_. []),
      trace = [TreeAccess 0, Lock 0, TreeAccess 0, Unlock 0]\<rparr>"

text \<open>
  Tolerances. \<open>le_near k x y\<close> says that \<open>x\<close> is at most \<open>y\<close> up to \<open>k\<close> roundings: each
  rounding of a non-negative number moves it by at most the factor \<open>1 - unit_roundoff\<close>.
  \<open>near k x y\<close> says so in both directions: \<open>x\<close> and \<open>y\<close> agree up to \<open>k\<close> roundings, which
  bounds their distance by \<open>k * unit_roundoff\<close> times the larger of the two.
\<close>

definition le_near :: "nat \<Rightarrow> real \<Rightarrow> real \<Rightarrow> bool" where
  "le_near k x y = (x * (1 - unit_roundoff) ^ k \<le> y)"

definition near :: "nat \<Rightarrow> real \<Rightarrow> real \<Rightarrow> bool" where
  "near k x y = (le_near k y x \<and> le_near k x y)"

text \<open>A node as the constructor creates it: the five statistics have their initial values.\<close>

definition fresh :: "Stats \<Rightarrow> bool" where
  "fresh st = (scalars st = scalars Stats_default)"

text \<open>
  The binary64 number nearest to one tenth, which is what the literal \<^verbatim>\<open>0.1\<close> denotes:
  \<open>3602879701896397 / 2 ^ 55\<close>, a little above one tenth.
\<close>

definition tenth :: real where
  "tenth = 3602879701896397 / 36028797018963968"

section \<open>Accumulation\<close>

lemma record_all_Nil: "record_all st [] = st"
  by (simp add: record_all_def)

lemma record_all_Cons: "record_all st (d # ds) = record_all (record_duration st d) ds"
  by (simp add: record_all_def)

lemma call_count_record_all: "call_count (record_all st ds) = call_count st + length ds"
  by (induction ds arbitrary: st) (simp_all add: record_all_Nil record_all_Cons record_duration_def)

lemma total_time_record_all: "total_time (record_all st ds) = total_time st + sum_list ds"
  by (induction ds arbitrary: st) (simp_all add: record_all_Nil record_all_Cons record_duration_def)

lemma sum_squares_record_all:
  "sum_squares (record_all st ds) = sum_squares st + (\<Sum>d\<leftarrow>ds. d * d)"
  by (induction ds arbitrary: st) (simp_all add: record_all_Nil record_all_Cons record_duration_def)

lemma children_record_all: "children (record_all st ds) = children st"
  by (induction ds arbitrary: st) (simp_all add: record_all_Nil record_all_Cons record_duration_def)

lemma std_min_eq_min: "std_min (Finite a) b = Finite (min a b)"
  by (simp add: min_def)

lemma std_max_eq_max: "std_max a b = max a b"
  by (simp add: std_max_def max_def)

lemma Min_set_Cons: "Min (set (a # ds)) = (if ds = [] then a else min a (Min (set ds)))"
  by simp
lemma Max_set_Cons: "Max (set (a # ds)) = (if ds = [] then a else max a (Max (set ds)))"
  by simp

lemma min_time_record_all:
  "min_time (record_all st ds) =
     (case min_time st of
        Infinity \<Rightarrow> (if ds = [] then Infinity else Finite (Min (set ds)))
      | Finite m \<Rightarrow> Finite (Min (set (m # ds))))"
proof (induction ds arbitrary: st)
  case Nil
  show ?case by (simp add: record_all_Nil split: xdouble.split)
next
  case (Cons d ds)
  show ?case
  proof (cases "min_time st")
    case Infinity
    then have "min_time (record_duration st d) = Finite d"
      by (simp add: record_duration_def)
    with Infinity show ?thesis
      unfolding record_all_Cons Cons.IH by (simp del: set_simps add: Min_set_Cons)
  next
    case (Finite m)
    then have "min_time (record_duration st d) = Finite (min m d)"
      by (simp add: record_duration_def std_min_eq_min)
    with Finite show ?thesis
      unfolding record_all_Cons Cons.IH
      by (simp del: set_simps add: Min_set_Cons min.assoc)
  qed
qed

lemma max_time_record_all: "max_time (record_all st ds) = Max (set (max_time st # ds))"
proof (induction ds arbitrary: st)
  case Nil
  show ?case by (simp add: record_all_Nil)
next
  case (Cons d ds)
  have "max_time (record_duration st d) = max (max_time st) d"
    by (simp add: record_duration_def std_max_eq_max)
  then show ?case
    unfolding record_all_Cons Cons.IH
    by (simp del: set_simps add: Max_set_Cons max.assoc)
qed

section \<open>Reading and writing through pointers\<close>

lemma map_of_map_entry_eq:
  "map_of (AList.map_entry k f m) k' =
     (if k' = k then map_option f (map_of m k) else map_of m k')"
  by (induction m) auto

lemma map_fst_map_entry: "map fst (AList.map_entry k f m) = map fst m"
  by (induction m) auto

lemma map_fst_modify_at: "map fst (modify_at p f m) = map fst m"
  by (induction p f m rule: modify_at.induct) (simp_all add: map_fst_map_entry)

lemma children_children_update: "children (children_update g st) = g (children st)"
  by (simp add: children_update_def)

lemma scalars_children_update: "scalars (children_update g st) = scalars st"
  by (simp add: children_update_def scalars_def)

lemma deref_Cons:
  "deref m (k # ks) =
     (case map_of m k of None \<Rightarrow> None
      | Some st \<Rightarrow> if ks = [] then Some st else deref (children st) ks)"
  by (cases ks) (simp_all split: option.split)

lemma deref_empty: "deref [] q = None"
  by (cases q) (simp_all add: deref_Cons)

lemma deref_append:
  "p \<noteq> [] \<Longrightarrow> r \<noteq> [] \<Longrightarrow>
   deref m (p @ r) = (case deref m p of None \<Rightarrow> None | Some st \<Rightarrow> deref (children st) r)"
proof (induction m p rule: deref.induct)
  case (1 m)
  then show ?case by simp
next
  case (2 m k)
  then show ?case by (cases r) (simp_all split: option.split)
next
  case (3 m k k' ks)
  then show ?case by (simp split: option.split)
qed

lemma modify_at_Cons:
  "modify_at (k # ks) f m =
     AList.map_entry k (if ks = [] then f else children_update (modify_at ks f)) m"
  by (cases ks) simp_all

lemma deref_modify_at_Cons:
  "deref (modify_at (k # ks) f m) (k' # qs) =
     (if k' \<noteq> k then deref m (k' # qs)
      else case map_of m k of
             None \<Rightarrow> None
           | Some st \<Rightarrow>
               if ks = [] then (if qs = [] then Some (f st) else deref (children (f st)) qs)
               else if qs = [] then Some (children_update (modify_at ks f) st)
               else deref (modify_at ks f (children st)) qs)"
  unfolding modify_at_Cons deref_Cons [of _ k' qs] map_of_map_entry_eq
  by (simp add: children_children_update split: option.split)

lemma deref_modify_at_same: "deref (modify_at p f m) p = map_option f (deref m p)"
proof (induction p arbitrary: m)
  case Nil
  show ?case by simp
next
  case (Cons k ks)
  show ?case
    unfolding deref_modify_at_Cons deref_Cons [of m k ks]
    by (simp add: Cons.IH split: option.split)
qed

lemma strict_prefix_Nil_iff: "strict_prefix [] xs \<longleftrightarrow> xs \<noteq> []"
  by (cases xs) simp_all

lemma deref_modify_at:
  "p \<noteq> [] \<Longrightarrow>
   deref (modify_at p f m) q =
     (if q = p then map_option f (deref m p)
      else if strict_prefix q p
        then map_option (children_update (modify_at (drop (length q) p) f)) (deref m q)
      else if strict_prefix p q
        then (case deref m p of None \<Rightarrow> None
              | Some st \<Rightarrow> deref (children (f st)) (drop (length p) q))
      else deref m q)"
proof (induction p arbitrary: m q)
  case Nil
  then show ?case by simp
next
  case (Cons k ks)
  show ?case
  proof (cases q)
    case Nil
    then show ?thesis by simp
  next
    case q: (Cons k' qs)
    show ?thesis
    proof (cases "k' = k")
      case False
      then show ?thesis
        unfolding q deref_modify_at_Cons by simp
    next
      case True
      show ?thesis
      proof (cases "ks = []")
        case ks: True
        show ?thesis
          unfolding q deref_modify_at_Cons True ks
          by (cases "qs = []") (simp_all add: deref_Cons strict_prefix_Nil_iff split: option.split)
      next
        case ks: False
        show ?thesis
        proof (cases "qs = []")
          case qs: True
          show ?thesis
            unfolding q deref_modify_at_Cons True qs using ks
            by (simp add: strict_prefix_Nil_iff split: option.split)
        next
          case qs: False
          show ?thesis
            unfolding q deref_modify_at_Cons True
            using ks qs
            by (simp add: Cons.IH [OF ks] deref_Cons [of m k] split: option.split)
        qed
      qed
    qed
  qed
qed

lemma child_keys_children_update_modify:
  "child_keys (children_update (modify_at r f) st) = child_keys st"
  by (simp add: child_keys_def children_children_update map_fst_modify_at)

lemma shallow_scalars: "shallow scalars"
  by (simp add: shallow_def scalars_children_update)

lemma shallow_child_keys: "shallow child_keys"
  by (simp add: shallow_def child_keys_children_update_modify)

lemma view_modify_at:
  assumes "shallow \<phi>" and "p \<noteq> []"
  shows "map_option \<phi> (deref (modify_at p f m) q) =
     (if q = p then map_option (\<lambda>st. \<phi> (f st)) (deref m p)
      else if strict_prefix p q
        then (case deref m p of None \<Rightarrow> None
              | Some st \<Rightarrow> map_option \<phi> (deref (children (f st)) (drop (length p) q)))
      else map_option \<phi> (deref m q))"
proof -
  have "map_option \<phi> (map_option (children_update (modify_at r f)) x) = map_option \<phi> x" for r x
    using assms(1) by (cases x) (simp_all add: shallow_def)
  moreover have "strict_prefix q p \<Longrightarrow> \<not> strict_prefix p q"
    by (auto simp: strict_prefix_def)
  ultimately show ?thesis
    unfolding deref_modify_at [OF assms(2)]
    by (auto simp: option.map_comp comp_def split: option.split)
qed

lemma deref_below:
  assumes "strict_prefix p q" and "p \<noteq> []"
  shows "deref m q =
     (case deref m p of None \<Rightarrow> None | Some st \<Rightarrow> deref (children st) (drop (length p) q))"
proof -
  from assms(1) obtain r where r: "q = p @ r" "r \<noteq> []"
    by (auto simp: strict_prefix_def prefix_def)
  show ?thesis unfolding r using deref_append [OF assms(2) r(2)] by (simp split: option.split)
qed

text \<open>Writing the statistics of one node: \<open>f\<close> keeps the child table.\<close>

lemma view_modify_at_keep:
  assumes "shallow \<phi>" and keep: "\<And>st. children (f st) = children st"
  shows "map_option \<phi> (deref (modify_at p f m) q) =
     (if q = p then map_option (\<lambda>st. \<phi> (f st)) (deref m p) else map_option \<phi> (deref m q))"
proof (cases "p = []")
  case True
  then show ?thesis by simp
next
  case False
  show ?thesis
    unfolding view_modify_at [OF assms(1) False]
    by (simp add: keep deref_below [OF _ False] split: option.split)
qed

lemma map_of_subscript:
  "map_of (subscript m k) k' =
     (if k' = k \<and> map_of m k = None then Some Stats_default else map_of m k')"
  by (simp add: subscript_def split: option.split) (metis map_add_def map_of_append map_of.simps option.case not_Some_eq fun_upd_apply)

lemma deref_subscript:
  "deref (subscript m k) q =
     (if q = [k] \<and> map_of m k = None then Some Stats_default else deref m q)"
proof (cases q)
  case Nil
  then show ?thesis by simp
next
  case (Cons k' qs)
  show ?thesis
    unfolding Cons deref_Cons map_of_subscript
    by (simp add: Stats_default_def deref_empty)
qed

lemma deref_snoc:
  assumes "p \<noteq> []"
  shows "deref m (p @ [k]) =
     (case deref m p of None \<Rightarrow> None | Some st \<Rightarrow> map_of (children st) k)"
  using deref_append [OF assms, of "[k]" m] by (simp split: option.split)

lemma deref_nonempty: "deref m p = Some st \<Longrightarrow> p \<noteq> []"
  by auto

section \<open>The statistics of every node\<close>

text \<open>
  With exact arithmetic an update preserves the invariant of the data model. The
  rounded update does so only up to rounding, which is a later section.
\<close>

lemma stats_ok_default: "stats_ok Stats_default"
  by (simp add: stats_ok_def Stats_default_def)

lemma stats_ok_invariant: "stats_ok st \<Longrightarrow> node_invariant st"
  unfolding stats_ok_def node_invariant_def by (cases "call_count st = 0") simp_all

lemma variance_nonneg_iff:
  fixes t ss n :: real
  assumes "0 < n"
  shows "0 \<le> ss / n - (t / n)\<^sup>2 \<longleftrightarrow> t\<^sup>2 \<le> n * ss"
proof -
  have "ss / n - (t / n)\<^sup>2 = (n * ss - t\<^sup>2) / n\<^sup>2"
    using assms by (simp add: field_simps power2_eq_square)
  moreover have "0 < n\<^sup>2" using assms by simp
  ultimately show ?thesis by (simp add: zero_le_divide_iff)
qed

lemma variance_step:
  fixes t ss n d :: real
  assumes n: "0 < n" and h: "t\<^sup>2 \<le> n * ss"
  shows "(t + d)\<^sup>2 \<le> (n + 1) * (ss + d * d)"
proof -
  have "0 \<le> (t - n * d)\<^sup>2" by simp
  then have "2 * n * t * d \<le> t\<^sup>2 + n\<^sup>2 * d\<^sup>2"
    by (simp add: power2_eq_square algebra_simps)
  also have "\<dots> \<le> n * ss + n\<^sup>2 * d\<^sup>2" using h by simp
  finally have "n * (2 * t * d) \<le> n * (ss + n * d\<^sup>2)"
    by (simp add: power2_eq_square algebra_simps)
  then have "2 * t * d \<le> ss + n * d\<^sup>2"
    using n by (simp only: mult_le_cancel_left_pos)
  then show ?thesis using h
    by (simp add: power2_eq_square algebra_simps)
qed

lemma stats_ok_record:
  assumes "stats_ok st"
  shows "stats_ok (record_duration st d)"
proof (cases "call_count st = 0")
  case True
  with assms show ?thesis
    by (simp add: stats_ok_def record_duration_def min_le_def std_max_def power2_eq_square)
next
  case False
  define n where "n = real (call_count st)"
  have n: "0 < n" using False by (simp add: n_def)
  from assms False obtain m where m: "min_time st = Finite m"
    and lo: "m \<le> total_time st / n" and hi: "total_time st / n \<le> max_time st"
    and var: "0 \<le> sum_squares st / n - (total_time st / n)\<^sup>2"
    by (auto simp: stats_ok_def min_le_def n_def split: xdouble.splits)
  have lo': "m * n \<le> total_time st" using lo n by (simp add: pos_le_divide_eq)
  have hi': "total_time st \<le> max_time st * n" using hi n by (simp add: pos_divide_le_eq)
  have var': "(total_time st)\<^sup>2 \<le> n * sum_squares st"
    by (rule iffD1 [OF variance_nonneg_iff [OF n] var])
  have n1: "0 < n + 1" using n by simp
  have a: "min m d * (n + 1) \<le> total_time st + d"
  proof -
    have "min m d * n \<le> m * n" using n by (simp add: mult_right_mono)
    then show ?thesis using lo' by (simp add: algebra_simps)
  qed
  have b: "total_time st + d \<le> max (max_time st) d * (n + 1)"
  proof -
    have "max_time st * n \<le> max (max_time st) d * n" using n by (simp add: mult_right_mono)
    then show ?thesis using hi' by (simp add: algebra_simps)
  qed
  have c: "(total_time st + d)\<^sup>2 \<le> (n + 1) * (sum_squares st + d * d)"
    using n var' by (rule variance_step)
  have cc: "real (call_count (record_duration st d)) = n + 1"
    by (simp add: record_duration_def n_def)
  have "min_le (min_time (record_duration st d)) (total_time (record_duration st d) / (n + 1))"
    using a n1 m by (simp del: std_min.simps add: record_duration_def std_min_eq_min min_le_def pos_le_divide_eq)
  moreover have "total_time (record_duration st d) / (n + 1) \<le> max_time (record_duration st d)"
    using b n1 by (simp add: record_duration_def std_max_eq_max pos_divide_le_eq)
  moreover have "0 \<le> sum_squares (record_duration st d) / (n + 1)
                - (total_time (record_duration st d) / (n + 1))\<^sup>2"
  proof -
    have "0 \<le> (sum_squares st + d * d) / (n + 1) - ((total_time st + d) / (n + 1))\<^sup>2"
      by (rule iffD2 [OF variance_nonneg_iff [OF n1] c])
    then show ?thesis by (simp add: record_duration_def)
  qed
  moreover have "call_count (record_duration st d) \<noteq> 0" by (simp add: record_duration_def)
  ultimately show ?thesis unfolding stats_ok_def cc[symmetric] by simp
qed

lemma stats_ok_record_all: "stats_ok st \<Longrightarrow> stats_ok (record_all st ds)"
  by (induction ds arbitrary: st) (simp_all add: record_all_Nil record_all_Cons stats_ok_record)

lemma view_modify_at_add:
  assumes "shallow \<phi>" and "p \<noteq> []"
  shows "map_option \<phi> (deref (modify_at p (children_update (\<lambda>ch. subscript ch nm)) m) q) =
     (if q = p
        then map_option (\<lambda>st. \<phi> (children_update (\<lambda>ch. subscript ch nm) st)) (deref m p)
      else if q = p @ [nm] \<and> deref m p \<noteq> None \<and> deref m q = None
        then Some (\<phi> Stats_default)
      else map_option \<phi> (deref m q))"
proof (cases "strict_prefix p q")
  case False
  then have "q \<noteq> p @ [nm]" by (auto simp: strict_prefix_def)
  with False show ?thesis
    unfolding view_modify_at [OF assms] by simp
next
  case True
  then have ne: "q \<noteq> p" by (auto simp: strict_prefix_def)
  have one: "drop (length p) q = [nm] \<longleftrightarrow> q = p @ [nm]"
    using True by (auto simp: strict_prefix_def prefix_def)
  have last: "deref m (p @ [nm]) =
      (case deref m p of None \<Rightarrow> None | Some st \<Rightarrow> map_of (children st) nm)"
    using deref_append [OF assms(2), of "[nm]" m] by (simp split: option.split)
  show ?thesis
    unfolding view_modify_at [OF assms] deref_below [OF True assms(2), of m]
    using True ne
    by (auto simp: children_children_update deref_subscript map_of_subscript one last
        split: option.split)
qed

lemma resolve_view:
  assumes "shallow \<phi>" and "resolve parent nm m = Some (cur, m')"
  shows "map_option \<phi> (deref m' q) =
     (if parent = Some q
        then map_option (\<lambda>st. \<phi> (children_update (\<lambda>ch. subscript ch nm) st)) (deref m q)
      else if q = cur \<and> deref m q = None then Some (\<phi> Stats_default)
      else map_option \<phi> (deref m q))"
proof (cases parent)
  case None
  with assms(2) show ?thesis
    by (auto simp: resolve_def deref_subscript map_of_subscript)
next
  case (Some p)
  with assms(2) obtain pst where p: "deref m p = Some pst" and cur: "cur = p @ [nm]"
    and m': "m' = modify_at p (children_update (\<lambda>ch. subscript ch nm)) m"
    by (auto simp: resolve_def split: option.splits)
  from p have ne: "p \<noteq> []" by auto
  show ?thesis
    unfolding m' view_modify_at_add [OF assms(1) ne] using p Some cur by auto
qed

lemma resolve_scalars:
  assumes "resolve parent nm m = Some (cur, m')"
  shows "map_option scalars (deref m' q) =
     (if q = cur \<and> deref m q = None then Some (scalars Stats_default)
      else map_option scalars (deref m q))"
proof -
  have "cur \<noteq> p" if "parent = Some p" for p
    using assms that by (auto simp: resolve_def split: option.splits)
  then show ?thesis
    unfolding resolve_view [OF shallow_scalars assms]
    by (auto simp: scalars_children_update)
qed

lemma resolve_cur: "resolve parent nm m = Some (cur, m') \<Longrightarrow> deref m' cur \<noteq> None"
  using resolve_scalars [of parent nm m cur m' cur] by (auto split: if_splits)

lemma resolve_keeps:
  "resolve parent nm m = Some (cur, m') \<Longrightarrow> deref m q \<noteq> None \<Longrightarrow> deref m' q \<noteq> None"
  using resolve_scalars [of parent nm m cur m' q] by (auto split: if_splits)

lemma record_keeps:
  "deref m q \<noteq> None \<Longrightarrow> deref (modify_at p (\<lambda>st. record_duration st d) m) q \<noteq> None"
  using view_modify_at_keep [OF shallow_scalars, of "\<lambda>st. record_duration st d" p m q]
  by (auto simp: record_duration_def split: if_splits)

lemma ctor_SomeE:
  assumes "SectionProfiler_ctor tid nm now s = Some (this, s')"
  obtains m where
    "parent_stats this = (case active_stack s tid of [] \<Rightarrow> None | x # _ \<Rightarrow> Some (current_stats x))"
    "resolve (parent_stats this) nm (root_stats s) = Some (current_stats this, m)"
    "name this = nm" "start this = now"
    "s' = s\<lparr>root_stats := m,
            active_stack := (active_stack s)(tid := this # active_stack s tid),
            trace := trace s @ [TreeAccess tid]\<rparr>"
  using assms unfolding SectionProfiler_ctor_def Let_def
  by (auto split: option.splits prod.splits)

lemma dtor_SomeE:
  assumes "SectionProfiler_dtor tid this end_time s = Some s'"
  obtains st x rest where
    "deref (root_stats s) (current_stats this) = Some st"
    "active_stack s tid = x # rest"
    "s' = s\<lparr>root_stats := modify_at (current_stats this)
                             (\<lambda>st. record_duration st (end_time - start this)) (root_stats s),
            active_stack := (active_stack s)(tid := rest),
            trace := trace s @ [Lock tid, TreeAccess tid, Unlock tid]\<rparr>"
  using assms unfolding SectionProfiler_dtor_def Let_def
  by (auto split: option.splits list.splits)

lemma stats_ok_scalars: "scalars st = scalars st' \<Longrightarrow> stats_ok st = stats_ok st'"
  by (simp add: scalars_def stats_ok_def)

lemma resolve_derefD:
  assumes "resolve parent nm m = Some (cur, m')" and "deref m' q = Some st'"
  shows "(q = cur \<and> deref m q = None \<and> scalars st' = scalars Stats_default)
         \<or> (\<exists>st. deref m q = Some st \<and> scalars st' = scalars st)"
  using resolve_scalars [OF assms(1), of q] assms(2)
  by (cases "deref m q") (auto split: if_splits)

lemma record_derefD:
  assumes "deref (modify_at p (\<lambda>st. record_duration st dur) m) q = Some st'"
  shows "\<exists>st. deref m q = Some st
            \<and> scalars st' = (if q = p then scalars (record_duration st dur) else scalars st)"
proof -
  have keep: "\<And>st. children (record_duration st dur) = children st"
    by (simp add: record_duration_def)
  show ?thesis
    using view_modify_at_keep [OF shallow_scalars, of "\<lambda>st. record_duration st dur", OF keep, of p m q]
      assms
    by (cases "deref m q") (auto split: if_splits)
qed

lemma resolve_stats_ok:
  assumes r: "resolve parent nm m = Some (cur, m')"
    and ok: "\<And>p st. deref m p = Some st \<Longrightarrow> stats_ok st"
    and d: "deref m' q = Some st'"
  shows "stats_ok st'"
  using resolve_derefD [OF r d] ok stats_ok_default stats_ok_scalars by blast

lemma record_stats_ok:
  assumes ok: "\<And>p st. deref m p = Some st \<Longrightarrow> stats_ok st"
    and d: "deref (modify_at p (\<lambda>st. record_duration st dur) m) q = Some st'"
  shows "stats_ok st'"
proof -
  from record_derefD [OF d] obtain st where st: "deref m q = Some st"
    and sc: "scalars st' = (if q = p then scalars (record_duration st dur) else scalars st)"
    by blast
  have "stats_ok st" using ok st by blast
  then show ?thesis
    using sc stats_ok_record [of st dur] stats_ok_scalars [of st'] by (auto split: if_splits)
qed

lemma reachable_stats_ok:
  "reachable s \<Longrightarrow> deref (root_stats s) p = Some st \<Longrightarrow> stats_ok st"
proof (induction arbitrary: p st rule: reachable.induct)
  case reach_init
  then show ?case by (simp add: profiler_init_def deref_empty)
next
  case (reach_ctor s tid nm now this s')
  from reach_ctor.hyps(2) obtain m where
    r: "resolve (parent_stats this) nm (root_stats s) = Some (current_stats this, m)"
    and s': "root_stats s' = m"
    by (elim ctor_SomeE) simp
  from reach_ctor.prems have d: "deref m p = Some st" by (simp add: s')
  show ?case
  proof (rule resolve_stats_ok [OF r])
    show "deref m p = Some st" by (fact d)
    show "stats_ok st0" if "deref (root_stats s) q = Some st0" for q st0
      using that by (rule reach_ctor.IH)
  qed
next
  case (reach_dtor s tid this end_time s')
  from reach_dtor.hyps(2) have
    "root_stats s' = modify_at (current_stats this)
        (\<lambda>st. record_duration st (end_time - start this)) (root_stats s)"
    by (elim dtor_SomeE) simp
  with reach_dtor.prems have d:
    "deref (modify_at (current_stats this)
        (\<lambda>st. record_duration st (end_time - start this)) (root_stats s)) p = Some st"
    by simp
  show ?case
  proof (rule record_stats_ok)
    show "deref (modify_at (current_stats this)
        (\<lambda>st. record_duration st (end_time - start this)) (root_stats s)) p = Some st"
      by (fact d)
    show "stats_ok st0" if "deref (root_stats s) q = Some st0" for q st0
      using that by (rule reach_dtor.IH)
  qed
next
  case (reach_report s tid out s')
  then show ?case by (auto simp: report_def)
qed

section \<open>The history of every node, and the keys of every table\<close>

lemma scalars_record_cong:
  "scalars st = scalars st' \<Longrightarrow> scalars (record_duration st d) = scalars (record_duration st' d)"
  by (simp add: scalars_def record_duration_def)

lemma scalars_record_all_cong:
  "scalars st = scalars st' \<Longrightarrow> scalars (record_all st ds) = scalars (record_all st' ds)"
proof (induction ds arbitrary: st st')
  case Nil
  then show ?case by (simp add: record_all_Nil)
next
  case (Cons d ds)
  show ?case
    unfolding record_all_Cons
    by (rule Cons.IH) (rule scalars_record_cong [OF Cons.prems])
qed

lemma record_all_snoc: "record_all st (ds @ [d]) = record_duration (record_all st ds) d"
  by (simp add: record_all_def)

lemma reachable_history:
  "reachable s \<Longrightarrow> deref (root_stats s) p = Some st \<Longrightarrow>
     \<exists>ds. scalars st = scalars (record_all Stats_default ds)"
proof (induction arbitrary: p st rule: reachable.induct)
  case reach_init
  then show ?case by (simp add: profiler_init_def deref_empty)
next
  case (reach_ctor s tid nm now this s')
  from reach_ctor.hyps(2) obtain m where
    r: "resolve (parent_stats this) nm (root_stats s) = Some (current_stats this, m)"
    and s': "root_stats s' = m"
    by (elim ctor_SomeE) simp
  from reach_ctor.prems have d: "deref m p = Some st" by (simp add: s')
  from resolve_derefD [OF r d] show ?case
  proof
    assume "p = current_stats this \<and> deref (root_stats s) p = None
              \<and> scalars st = scalars Stats_default"
    then have "scalars st = scalars (record_all Stats_default [])"
      by (simp add: record_all_Nil)
    then show ?thesis by blast
  next
    assume "\<exists>st0. deref (root_stats s) p = Some st0 \<and> scalars st = scalars st0"
    then obtain st0 where "deref (root_stats s) p = Some st0" "scalars st = scalars st0"
      by blast
    then show ?thesis using reach_ctor.IH [of p st0] by simp
  qed
next
  case (reach_dtor s tid this end_time s')
  from reach_dtor.hyps(2) have
    "root_stats s' = modify_at (current_stats this)
        (\<lambda>st. record_duration st (end_time - start this)) (root_stats s)"
    by (elim dtor_SomeE) simp
  with reach_dtor.prems have d:
    "deref (modify_at (current_stats this)
        (\<lambda>st. record_duration st (end_time - start this)) (root_stats s)) p = Some st"
    by simp
  from record_derefD [OF d] obtain st0 where st0: "deref (root_stats s) p = Some st0"
    and sc: "scalars st = (if p = current_stats this
               then scalars (record_duration st0 (end_time - start this)) else scalars st0)"
    by blast
  from reach_dtor.IH [OF st0] obtain ds where
    ds: "scalars st0 = scalars (record_all Stats_default ds)" by blast
  show ?case
  proof (cases "p = current_stats this")
    case True
    with sc have "scalars st = scalars (record_duration st0 (end_time - start this))" by simp
    also have "\<dots> = scalars (record_duration (record_all Stats_default ds) (end_time - start this))"
      using ds by (rule scalars_record_cong)
    finally have "scalars st = scalars (record_all Stats_default (ds @ [end_time - start this]))"
      by (simp add: record_all_snoc)
    then show ?thesis by blast
  next
    case False
    with sc ds have "scalars st = scalars (record_all Stats_default ds)" by simp
    then show ?thesis by blast
  qed
next
  case (reach_report s tid out s')
  then show ?case by (auto simp: report_def)
qed

lemma distinct_subscript: "distinct (map fst m) \<Longrightarrow> distinct (map fst (subscript m k))"
  by (auto simp: subscript_def map_of_eq_None_iff split: option.split)

lemma resolve_root_keys:
  assumes "resolve parent nm m = Some (cur, m')"
  shows "map fst m' = (if parent = None then map fst (subscript m nm) else map fst m)"
  using assms by (auto simp: resolve_def map_fst_modify_at split: option.splits)

lemma resolve_distinct_keys:
  assumes r: "resolve parent nm m = Some (cur, m')" and dk: "distinct_keys m"
  shows "distinct_keys m'"
proof -
  have root: "distinct (map fst m')"
    using dk distinct_subscript unfolding resolve_root_keys [OF r] distinct_keys_def by auto
  have "distinct (child_keys st')" if d: "deref m' q = Some st'" for q st'
  proof -
    have v: "Some (child_keys st') =
       (if parent = Some q
          then map_option (\<lambda>st. child_keys (children_update (\<lambda>ch. subscript ch nm) st)) (deref m q)
        else if q = cur \<and> deref m q = None then Some (child_keys Stats_default)
        else map_option child_keys (deref m q))"
      using resolve_view [OF shallow_child_keys r, of q] d by simp
    show ?thesis
    proof (cases "deref m q")
      case None
      with v show ?thesis
        by (auto simp: child_keys_def Stats_default_def split: if_splits)
    next
      case (Some st)
      then have "distinct (child_keys st)" using dk by (auto simp: distinct_keys_def)
      with v Some show ?thesis
        by (auto simp: child_keys_def children_children_update distinct_subscript split: if_splits)
    qed
  qed
  with root show ?thesis by (simp add: distinct_keys_def)
qed

lemma record_distinct_keys:
  assumes dk: "distinct_keys m"
  shows "distinct_keys (modify_at p (\<lambda>st. record_duration st d) m)"
proof -
  have keep: "\<And>st. children (record_duration st d) = children st"
    by (simp add: record_duration_def)
  have "distinct (child_keys st')"
    if d: "deref (modify_at p (\<lambda>st. record_duration st d) m) q = Some st'" for q st'
    using view_modify_at_keep [OF shallow_child_keys, of "\<lambda>st. record_duration st d", OF keep, of p m q]
      d dk
    by (cases "deref m q") (auto simp: distinct_keys_def child_keys_def keep split: if_splits)
  then show ?thesis using dk by (simp add: distinct_keys_def map_fst_modify_at)
qed

lemma reachable_distinct_keys: "reachable s \<Longrightarrow> distinct_keys (root_stats s)"
proof (induction rule: reachable.induct)
  case reach_init
  then show ?case by (simp add: profiler_init_def distinct_keys_def deref_empty)
next
  case (reach_ctor s tid nm now this s')
  from reach_ctor.hyps(2) obtain m where
    r: "resolve (parent_stats this) nm (root_stats s) = Some (current_stats this, m)"
    and s': "root_stats s' = m"
    by (elim ctor_SomeE) simp
  show ?case unfolding s' using r reach_ctor.IH by (rule resolve_distinct_keys)
next
  case (reach_dtor s tid this end_time s')
  from reach_dtor.hyps(2) have
    "root_stats s' = modify_at (current_stats this)
        (\<lambda>st. record_duration st (end_time - start this)) (root_stats s)"
    by (elim dtor_SomeE) simp
  then show ?case using record_distinct_keys [OF reach_dtor.IH] by simp
next
  case (reach_report s tid out s')
  then show ?case by (auto simp: report_def)
qed

section \<open>Scoped use keeps the stacks balanced\<close>

lemma ptrs_valid_init: "ptrs_valid profiler_init"
  by (simp add: ptrs_valid_def profiler_init_def)

lemma ctor_total:
  assumes "ptrs_valid s"
  shows "\<exists>this s'. SectionProfiler_ctor tid nm now s = Some (this, s')"
proof (cases "active_stack s tid")
  case Nil
  then show ?thesis by (simp add: SectionProfiler_ctor_def resolve_def Let_def)
next
  case (Cons x rest)
  then have "deref (root_stats s) (current_stats x) \<noteq> None"
    using assms by (auto simp: ptrs_valid_def dest!: spec [of _ tid])
  then show ?thesis using Cons
    by (auto simp: SectionProfiler_ctor_def resolve_def Let_def)
qed

lemma ctor_stack:
  assumes "SectionProfiler_ctor tid nm now s = Some (this, s')"
  shows "active_stack s' = (active_stack s)(tid := this # active_stack s tid)"
  using assms by (elim ctor_SomeE) simp

lemma ctor_ptrs_valid:
  assumes c: "SectionProfiler_ctor tid nm now s = Some (this, s')" and v: "ptrs_valid s"
  shows "ptrs_valid s'"
proof -
  from c obtain m where
    r: "resolve (parent_stats this) nm (root_stats s) = Some (current_stats this, m)"
    and m: "root_stats s' = m"
    by (elim ctor_SomeE) simp
  have "deref m (current_stats x) \<noteq> None" if "x \<in> set (active_stack s' t)" for x t
  proof (cases "x = this")
    case True
    then show ?thesis using resolve_cur [OF r] by simp
  next
    case False
    with that have "x \<in> set (active_stack s t)"
      unfolding ctor_stack [OF c] by (auto split: if_splits)
    then have "deref (root_stats s) (current_stats x) \<noteq> None"
      using v by (auto simp: ptrs_valid_def)
    then show ?thesis by (rule resolve_keeps [OF r])
  qed
  then show ?thesis unfolding ptrs_valid_def m by blast
qed


lemma dtor_stack:
  assumes "SectionProfiler_dtor tid this end_time s = Some s'"
  shows "active_stack s' = (active_stack s)(tid := tl (active_stack s tid))"
    and "active_stack s tid \<noteq> []"
  using assms by (elim dtor_SomeE; simp)+



section \<open>Runs and examples\<close>

lemmas eval_defs =
  Let_def fun_upd_idem profiler_init_def SectionProfiler_ctor_def SectionProfiler_dtor_def
  resolve_def subscript_def Stats_default_def record_duration_def std_max_def children_update_def

lemma run_reachable:
  "reachable s \<Longrightarrow> run_stmt tid c s = Some (thrown, s') \<Longrightarrow> reachable s'"
  "reachable s \<Longrightarrow> run_block tid cs s = Some (thrown, s') \<Longrightarrow> reachable s'"
proof (induction tid c s and tid cs s arbitrary: thrown s' and thrown s'
    rule: run_stmt_run_block.induct)
  case (1 tid nm t0 t1 body s)
  from "1.prems"(2) obtain this s1 thr s2 where
    c: "SectionProfiler_ctor tid nm t0 s = Some (this, s1)"
    and b: "run_block tid body s1 = Some (thr, s2)"
    and d: "SectionProfiler_dtor tid this t1 s2 = Some s'"
    by (auto split: option.splits prod.splits)
  have "reachable s1" using "1.prems"(1) c by (rule reach_ctor)
  then have "reachable s2" using b by (rule "1.IH" [OF c refl])
  then show ?case using d by (rule reach_dtor)
next
  case (2 tid s)
  then show ?case by simp
next
  case (3 tid body s)
  from "3.prems"(2) obtain thr where "run_block tid body s = Some (thr, s')"
    by (auto split: option.splits prod.splits)
  with "3.prems"(1) show ?case by (rule "3.IH")
next
  case (4 tid s)
  then show ?case by simp
next
  case (5 tid c cs s)
  from "5.prems"(2) obtain thr s1 where
    c: "run_stmt tid c s = Some (thr, s1)"
    and rest: "if thr then s' = s1 else run_block tid cs s1 = Some (thrown, s')"
    by (auto split: option.splits prod.splits if_splits)
  have r1: "reachable s1" using "5.prems"(1) c by (rule "5.IH"(1))
  show ?case
  proof (cases thr)
    case True
    with rest r1 show ?thesis by simp
  next
    case False
    with rest have "run_block tid cs s1 = Some (thrown, s')" by simp
    with r1 show ?thesis by (rule "5.IH"(2) [OF c refl False])
  qed
qed

lemma run_example_nested:
  "run_block 0 [Scope ''outer'' 0 10 [Scope ''inner'' 1 6 [], Scope ''inner'' 4 9 []]]
     profiler_init = Some (False, example_nested)"
  by (simp add: example_nested_def eval_defs)

lemma reachable_example_nested: "reachable example_nested"
  using reach_init run_example_nested by (rule run_reachable(2))

lemma ctor_example_open:
  "SectionProfiler_ctor 0 ''a'' 0 profiler_init =
     Some (\<lparr>name = ''a'', start = 0, parent_stats = None, current_stats = [''a'']\<rparr>,
           example_open)"
  by (simp add: example_open_def Let_def profiler_init_def SectionProfiler_ctor_def
      resolve_def subscript_def)

lemma reachable_example_open: "reachable example_open"
  using reach_init ctor_example_open by (rule reach_ctor)

lemma dtor_example_flat:
  "SectionProfiler_dtor 0
     \<lparr>name = ''a'', start = 0, parent_stats = None, current_stats = [''a'']\<rparr> 3 example_open
     = Some example_flat"
  by (simp add: example_open_def example_flat_def eval_defs)

lemma reachable_example_flat: "reachable example_flat"
  using reachable_example_open dtor_example_flat by (rule reach_dtor)

section \<open>What the report renders\<close>

lemma occurs_Nil: "\<not> occurs [] parent d nm st parent'"
  by (auto elim: occurs.cases)

lemma occurs_Cons:
  "occurs ((k, pst) # rest) parent d nm st parent' \<longleftrightarrow>
     (d = 0 \<and> nm = k \<and> st = pst \<and> parent' = parent)
     \<or> (\<exists>d'. d = Suc d' \<and> occurs (children pst) (Some pst) d' nm st parent')
     \<or> occurs rest parent d nm st parent'"
  (is "?L \<longleftrightarrow> ?R")
proof
  assume ?L
  then show ?R
    by (cases rule: occurs.cases) (auto intro: occurs.intros)
next
  assume ?R
  then consider
    (a) "d = 0" "nm = k" "st = pst" "parent' = parent"
    | (b) d' where "d = Suc d'" "occurs (children pst) (Some pst) d' nm st parent'"
    | (c) "occurs rest parent d nm st parent'"
    by blast
  then show ?L
  proof cases
    case a
    then show ?thesis by (simp add: occurs_here)
  next
    case b
    have "(k, pst) \<in> set ((k, pst) # rest)" by simp
    then show ?thesis unfolding b(1) using b(2) by (rule occurs_below)
  next
    case c
    then show ?thesis
    proof (cases rule: occurs.cases)
      case occurs_here
      then show ?thesis by (simp add: occurs.occurs_here)
    next
      case (occurs_below k' pst' d')
      have "(k', pst') \<in> set ((k, pst) # rest)" using occurs_below(2) by simp
      then show ?thesis unfolding occurs_below(1) using occurs_below(3) by (rule occurs.occurs_below)
    qed
  qed
qed

lemma print_stats_Cons:
  "print_stats ((nm, st) # rest) indent parent_time =
     stat_line indent nm st parent_time
     # print_stats (children st) (indent @ ''  '') (total_time st)
     @ print_stats rest indent parent_time"
  by (cases st) simp

lemma spaces_Suc: "indent @ spaces (Suc d) = (indent @ ''  '') @ spaces d"
  by (simp add: spaces_def)

lemma print_stats_rows:
  "baseline_of parent = parent_time \<Longrightarrow>
   r \<in> set (print_stats m indent parent_time) \<longleftrightarrow>
     (\<exists>d nm st parent'. occurs m parent d nm st parent'
        \<and> r = stat_line (indent @ spaces d) nm st (baseline_of parent'))"
proof (induction m indent parent_time arbitrary: parent rule: print_stats.induct)
  case (1 indent parent_time)
  show ?case by (simp add: occurs_Nil)
next
  case (2 nm tt cc mn mx ss ch rest indent parent_time)
  let ?st = "Stats tt cc mn mx ss ch"
  have b: "baseline_of (Some ?st) = tt" by (simp add: baseline_of_def)
  have sub: "r \<in> set (print_stats ch (indent @ ''  '') tt) \<longleftrightarrow>
     (\<exists>d nm' st' parent'. occurs ch (Some ?st) d nm' st' parent'
        \<and> r = stat_line ((indent @ ''  '') @ spaces d) nm' st' (baseline_of parent'))"
  proof (cases "ch = []")
    case True
    then show ?thesis by (simp add: occurs_Nil)
  next
    case False
    then show ?thesis by (rule "2.IH"(1) [OF _ b])
  qed
  have rest: "r \<in> set (print_stats rest indent parent_time) \<longleftrightarrow>
     (\<exists>d nm' st' parent'. occurs rest parent d nm' st' parent'
        \<and> r = stat_line (indent @ spaces d) nm' st' (baseline_of parent'))"
    by (rule "2.IH"(2) [OF "2.prems"])
  have here: "stat_line (indent @ spaces 0) nm ?st (baseline_of parent)
      = stat_line indent nm ?st parent_time"
    using "2.prems" by (simp add: spaces_def)
  have L: "r \<in> set (print_stats ((nm, ?st) # rest) indent parent_time) \<longleftrightarrow>
      r = stat_line indent nm ?st parent_time
      \<or> r \<in> set (print_stats ch (indent @ ''  '') tt)
      \<or> r \<in> set (print_stats rest indent parent_time)"
    by (simp add: print_stats_Cons)
  have R: "(\<exists>d nm' st' parent'. occurs ((nm, ?st) # rest) parent d nm' st' parent'
        \<and> r = stat_line (indent @ spaces d) nm' st' (baseline_of parent')) \<longleftrightarrow>
      r = stat_line (indent @ spaces 0) nm ?st (baseline_of parent)
      \<or> (\<exists>d nm' st' parent'. occurs ch (Some ?st) d nm' st' parent'
            \<and> r = stat_line (indent @ spaces (Suc d)) nm' st' (baseline_of parent'))
      \<or> (\<exists>d nm' st' parent'. occurs rest parent d nm' st' parent'
            \<and> r = stat_line (indent @ spaces d) nm' st' (baseline_of parent'))"
  proof
    assume "\<exists>d nm' st' parent'. occurs ((nm, ?st) # rest) parent d nm' st' parent'
        \<and> r = stat_line (indent @ spaces d) nm' st' (baseline_of parent')"
    then obtain d nm' st' parent' where
      o: "occurs ((nm, ?st) # rest) parent d nm' st' parent'"
      and r: "r = stat_line (indent @ spaces d) nm' st' (baseline_of parent')" by blast
    from o consider
      (a) "d = 0" "nm' = nm" "st' = ?st" "parent' = parent"
      | (b) d' where "d = Suc d'" "occurs ch (Some ?st) d' nm' st' parent'"
      | (c) "occurs rest parent d nm' st' parent'"
      unfolding occurs_Cons by auto
    then show "r = stat_line (indent @ spaces 0) nm ?st (baseline_of parent)
      \<or> (\<exists>d nm' st' parent'. occurs ch (Some ?st) d nm' st' parent'
            \<and> r = stat_line (indent @ spaces (Suc d)) nm' st' (baseline_of parent'))
      \<or> (\<exists>d nm' st' parent'. occurs rest parent d nm' st' parent'
            \<and> r = stat_line (indent @ spaces d) nm' st' (baseline_of parent'))"
    proof cases
      case a
      with r show ?thesis by simp
    next
      case b
      with r show ?thesis by blast
    next
      case c
      with r show ?thesis by blast
    qed
  next
    assume "r = stat_line (indent @ spaces 0) nm ?st (baseline_of parent)
      \<or> (\<exists>d nm' st' parent'. occurs ch (Some ?st) d nm' st' parent'
            \<and> r = stat_line (indent @ spaces (Suc d)) nm' st' (baseline_of parent'))
      \<or> (\<exists>d nm' st' parent'. occurs rest parent d nm' st' parent'
            \<and> r = stat_line (indent @ spaces d) nm' st' (baseline_of parent'))"
    then consider
      (a) "r = stat_line (indent @ spaces 0) nm ?st (baseline_of parent)"
      | (b) d nm' st' parent' where "occurs ch (Some ?st) d nm' st' parent'"
          "r = stat_line (indent @ spaces (Suc d)) nm' st' (baseline_of parent')"
      | (c) d nm' st' parent' where "occurs rest parent d nm' st' parent'"
          "r = stat_line (indent @ spaces d) nm' st' (baseline_of parent')"
      by blast
    then show "\<exists>d nm' st' parent'. occurs ((nm, ?st) # rest) parent d nm' st' parent'
        \<and> r = stat_line (indent @ spaces d) nm' st' (baseline_of parent')"
    proof cases
      case a
      have "occurs ((nm, ?st) # rest) parent 0 nm ?st parent"
        by (simp add: occurs_Cons)
      with a show ?thesis by blast
    next
      case b
      have "occurs ((nm, ?st) # rest) parent (Suc d) nm' st' parent'"
        using b(1) by (simp add: occurs_Cons)
      with b(2) show ?thesis by blast
    next
      case c
      have "occurs ((nm, ?st) # rest) parent d nm' st' parent'"
        using c(1) by (simp add: occurs_Cons)
      with c(2) show ?thesis by blast
    qed
  qed
  show ?case
    unfolding L R sub rest here spaces_Suc ..
qed


lemma distinct_keys_children:
  assumes "distinct_keys m" and "map_of m k = Some pst"
  shows "distinct_keys (children pst)"
proof -
  have "deref m [k] = Some pst" using assms(2) by simp
  then have "distinct (map fst (children pst))"
    using assms(1) unfolding distinct_keys_def child_keys_def by blast
  moreover have "distinct (child_keys st)" if "deref (children pst) p = Some st" for p st
  proof -
    from that have "p \<noteq> []" by auto
    then have "deref m (k # p) = Some st"
      using that assms(2) by (simp add: deref_Cons)
    then show ?thesis using assms(1) unfolding distinct_keys_def by blast
  qed
  ultimately show ?thesis by (simp add: distinct_keys_def)
qed

lemma occurs_deref:
  "occurs m parent d nm st parent' \<Longrightarrow> distinct_keys m \<Longrightarrow>
     \<exists>p. length p = Suc d \<and> last p = nm \<and> deref m p = Some st
         \<and> parent' = (if d = 0 then parent else deref m (butlast p))"
proof (induction rule: occurs.induct)
  case (occurs_here nm st m parent)
  then have "map_of m nm = Some st" by (simp add: distinct_keys_def)
  then have "length [nm] = Suc 0 \<and> last [nm] = nm \<and> deref m [nm] = Some st" by simp
  then show ?case by (intro exI [of _ "[nm]"]) simp
next
  case (occurs_below k pst m d nm st parent' parent)
  from occurs_below.hyps(1) occurs_below.prems have k: "map_of m k = Some pst"
    by (simp add: distinct_keys_def)
  have "distinct_keys (children pst)" using occurs_below.prems k by (rule distinct_keys_children)
  from occurs_below.IH [OF this] obtain p where
    len: "length p = Suc d" and last: "last p = nm"
    and d: "deref (children pst) p = Some st"
    and par: "parent' = (if d = 0 then Some pst else deref (children pst) (butlast p))"
    by blast
  from len have ne: "p \<noteq> []" by auto
  have "deref m (k # p) = Some st" using k d ne by (simp add: deref_Cons)
  moreover have "last (k # p) = nm" using last ne by simp
  moreover have "parent' = deref m (butlast (k # p))"
  proof (cases "d = 0")
    case True
    with len have "butlast p = []" by (cases p) simp_all
    with par True k ne show ?thesis by simp
  next
    case False
    with len have "butlast p \<noteq> []" by (cases p) auto
    with par False k ne show ?thesis by (simp add: deref_Cons)
  qed
  ultimately show ?case using len by (intro exI [of _ "k # p"]) simp
qed

lemma rendered_history:
  assumes "reachable s" and "occurs (root_stats s) parent d nm st parent'"
  shows "\<exists>ds. scalars st = scalars (record_all Stats_default ds)"
proof -
  from occurs_deref [OF assms(2) reachable_distinct_keys [OF assms(1)]]
  obtain p where "deref (root_stats s) p = Some st" by blast
  with assms(1) show ?thesis by (rule reachable_history)
qed

lemma history_count:
  assumes "scalars st = scalars (record_all Stats_default ds)"
  shows "call_count st = length ds"
proof -
  have "call_count st = call_count (record_all Stats_default ds)"
    using assms by (simp add: scalars_def)
  then show ?thesis by (simp add: call_count_record_all Stats_default_def)
qed

lemma stddev_nonneg: "0 \<le> stddev_of st"
  by (simp add: stddev_of_def std_max_def)

lemma occurs_owner:
  "occurs m parent d nm st parent' \<Longrightarrow>
     (d = 0 \<and> parent' = parent \<and> (nm, st) \<in> set m)
     \<or> (0 < d \<and> (\<exists>pst. parent' = Some pst \<and> (nm, st) \<in> set (children pst)))"
  by (induction rule: occurs.induct) auto

section \<open>Resolving a node again\<close>

lemma map_entry_id: "map_of m k = Some v \<Longrightarrow> f v = v \<Longrightarrow> AList.map_entry k f m = m"
  by (induction m) (auto split: if_splits)

lemma children_update_id: "g (children st) = children st \<Longrightarrow> children_update g st = st"
  by (simp add: children_update_def)

lemma modify_at_id: "deref m p = Some st \<Longrightarrow> f st = st \<Longrightarrow> modify_at p f m = m"
proof (induction p f m rule: modify_at.induct)
  case (1 f m)
  then show ?case by simp
next
  case (2 k f m)
  then show ?case by (simp add: map_entry_id)
next
  case (3 k k' ks f m)
  from "3.prems"(1) obtain pst where k: "map_of m k = Some pst"
    and d: "deref (children pst) (k' # ks) = Some st"
    by (auto split: option.splits)
  have "modify_at (k' # ks) f (children pst) = children pst"
    using d "3.prems"(2) by (rule "3.IH")
  then have "children_update (modify_at (k' # ks) f) pst = pst"
    by (rule children_update_id)
  with k show ?case by (simp add: map_entry_id)
qed

lemma subscript_id: "map_of m k \<noteq> None \<Longrightarrow> subscript m k = m"
  by (auto simp: subscript_def)

lemma resolve_existing:
  assumes r: "resolve parent nm m = Some (cur, m')" and e: "deref m cur \<noteq> None"
  shows "m' = m"
proof (cases parent)
  case None
  with r e show ?thesis by (auto simp: resolve_def subscript_id)
next
  case (Some p)
  with r obtain pst where p: "deref m p = Some pst" and cur: "cur = p @ [nm]"
    and m': "m' = modify_at p (children_update (\<lambda>ch. subscript ch nm)) m"
    by (auto simp: resolve_def split: option.splits)
  from p have ne: "p \<noteq> []" by auto
  from e have "map_of (children pst) nm \<noteq> None"
    unfolding cur deref_snoc [OF ne] p by simp
  then have "children_update (\<lambda>ch. subscript ch nm) pst = pst"
    by (intro children_update_id subscript_id)
  with p show ?thesis unfolding m' by (rule modify_at_id)
qed

lemma resolve_again:
  assumes c: "deref m cur \<noteq> None" and p: "\<And>q. parent = Some q \<Longrightarrow> deref m q \<noteq> None"
    and cur: "cur = (case parent of None \<Rightarrow> [nm] | Some q \<Rightarrow> q @ [nm])"
  shows "resolve parent nm m = Some (cur, m)"
proof -
  obtain m' where r: "resolve parent nm m = Some (cur, m')"
    using p cur by (cases parent) (auto simp: resolve_def)
  from resolve_existing [OF r c] r show ?thesis by simp
qed

lemma resolve_cur_eq:
  "resolve parent nm m = Some (cur, m') \<Longrightarrow>
     cur = (case parent of None \<Rightarrow> [nm] | Some q \<Rightarrow> q @ [nm])"
  by (auto simp: resolve_def split: option.splits)

lemma resolve_parent_valid:
  assumes "resolve parent nm m = Some (cur, m')" and "parent = Some q"
  shows "deref m' q \<noteq> None"
proof -
  from assms have "deref m q \<noteq> None"
    by (auto simp: resolve_def split: option.splits)
  with assms(1) show ?thesis by (rule resolve_keeps)
qed

lemma later_keeps:
  "later s s' \<Longrightarrow> deref (root_stats s) q \<noteq> None \<Longrightarrow> deref (root_stats s') q \<noteq> None"
proof (induction rule: later.induct)
  case (later_refl s)
  then show ?case by simp
next
  case (later_ctor s s1 tid nm now this s2)
  from later_ctor.hyps(2) obtain m where
    r: "resolve (parent_stats this) nm (root_stats s1) = Some (current_stats this, m)"
    and m: "root_stats s2 = m"
    by (elim ctor_SomeE) simp
  show ?case unfolding m using r later_ctor.IH [OF later_ctor.prems] by (rule resolve_keeps)
next
  case (later_dtor s s1 tid this end_time s2)
  from later_dtor.hyps(2) have m: "root_stats s2 = modify_at (current_stats this)
      (\<lambda>st. record_duration st (end_time - start this)) (root_stats s1)"
    by (elim dtor_SomeE) simp
  show ?case unfolding m using later_dtor.IH [OF later_dtor.prems] by (rule record_keeps)
next
  case (later_report s s1 tid out s2)
  then show ?case by (auto simp: report_def)
qed


lemma resolve_later:
  assumes r: "resolve parent nm m = Some (cur, root_stats s1)" and l: "later s1 s2"
  shows "resolve parent nm (root_stats s2) = Some (cur, root_stats s2)"
proof (rule resolve_again)
  have "deref (root_stats s1) cur \<noteq> None" using r by (rule resolve_cur)
  with l show "deref (root_stats s2) cur \<noteq> None" by (rule later_keeps)
  show "cur = (case parent of None \<Rightarrow> [nm] | Some q \<Rightarrow> q @ [nm])"
    using r by (rule resolve_cur_eq)
  show "deref (root_stats s2) q \<noteq> None" if "parent = Some q" for q
  proof -
    have "deref (root_stats s1) q \<noteq> None" using r that by (rule resolve_parent_valid)
    with l show ?thesis by (rule later_keeps)
  qed
qed

lemma twice_same_node:
  assumes c1: "SectionProfiler_ctor tid nm a s = Some (A, sa)"
    and d1: "SectionProfiler_dtor tid A b sa = Some sb"
    and c2: "SectionProfiler_ctor tid nm c sb = Some (B, sc)"
    and d2: "SectionProfiler_dtor tid B d sc = Some sd"
  shows "current_stats B = current_stats A \<and> root_stats sc = root_stats sb
     \<and> (\<exists>st1 st4. deref (root_stats sa) (current_stats A) = Some st1
           \<and> deref (root_stats sd) (current_stats A) = Some st4
           \<and> call_count st4 = call_count st1 + 2)"
proof -
  from c1 obtain m1 where
    pA: "parent_stats A =
       (case active_stack s tid of [] \<Rightarrow> None | x # _ \<Rightarrow> Some (current_stats x))"
    and r1: "resolve (parent_stats A) nm (root_stats s) = Some (current_stats A, m1)"
    and ma: "root_stats sa = m1"
    by (elim ctor_SomeE) simp
  have stb: "active_stack sb = active_stack s"
    unfolding dtor_stack(1) [OF d1] ctor_stack [OF c1] by simp
  have mb: "root_stats sb = modify_at (current_stats A)
      (\<lambda>st. record_duration st (b - start A)) (root_stats sa)"
    using d1 by (elim dtor_SomeE) simp
  from c2 obtain m3 where
    pB: "parent_stats B =
       (case active_stack sb tid of [] \<Rightarrow> None | x # _ \<Rightarrow> Some (current_stats x))"
    and r2: "resolve (parent_stats B) nm (root_stats sb) = Some (current_stats B, m3)"
    and mc: "root_stats sc = m3"
    by (elim ctor_SomeE) simp
  have par: "parent_stats B = parent_stats A" unfolding pA pB stb ..
  have cur: "current_stats B = current_stats A"
    using resolve_cur_eq [OF r1] resolve_cur_eq [OF r2] par by simp
  from resolve_cur [OF r1] obtain st1 where
    st1: "deref (root_stats sa) (current_stats A) = Some st1" unfolding ma by blast
  have sb1: "deref (root_stats sb) (current_stats A) = Some (record_duration st1 (b - start A))"
    unfolding mb deref_modify_at_same st1 by simp
  have same: "root_stats sc = root_stats sb"
    unfolding mc using r2 sb1 unfolding cur by (intro resolve_existing [OF r2]) (simp add: cur)
  have md: "root_stats sd = modify_at (current_stats A)
      (\<lambda>st. record_duration st (d - start B)) (root_stats sb)"
    using d2 unfolding cur [symmetric] same [symmetric] by (elim dtor_SomeE) simp
  have "deref (root_stats sd) (current_stats A)
      = Some (record_duration (record_duration st1 (b - start A)) (d - start B))"
    unfolding md deref_modify_at_same sb1 by simp
  moreover have "call_count (record_duration (record_duration st1 (b - start A)) (d - start B))
      = call_count st1 + 2"
    by (simp add: record_duration_def)
  ultimately show ?thesis using cur same st1 by blast
qed

section \<open>The mutex\<close>

lemma holder_after_append:
  "holder_after h (es @ es') =
     (case holder_after h es of None \<Rightarrow> None | Some h' \<Rightarrow> holder_after h' es')"
  by (induction h es rule: holder_after.induct) simp_all

lemma critical_section: "holder_after None [Lock t, TreeAccess t, Unlock t] = Some None"
  by simp

lemma dtor_lock_disciplined:
  assumes "SectionProfiler_dtor tid this end_time s = Some s'" and "lock_disciplined (trace s)"
  shows "lock_disciplined (trace s')"
proof -
  from assms(1) have "trace s' = trace s @ [Lock tid, TreeAccess tid, Unlock tid]"
    by (elim dtor_SomeE) simp
  with assms(2) show ?thesis
    by (simp add: lock_disciplined_def holder_after_append)
qed

lemma report_lock_disciplined:
  assumes "report tid s = (out, s')" and "lock_disciplined (trace s)"
  shows "lock_disciplined (trace s')"
proof -
  from assms(1) have "trace s' = trace s @ [Lock tid, TreeAccess tid, Unlock tid]"
    by (auto simp: report_def)
  with assms(2) show ?thesis
    by (simp add: lock_disciplined_def holder_after_append)
qed

lemma ctor_not_lock_disciplined:
  assumes "SectionProfiler_ctor tid nm now s = Some (this, s')"
  shows "\<not> lock_disciplined (trace s')"
proof -
  from assms have "trace s' = trace s @ [TreeAccess tid]"
    by (elim ctor_SomeE) simp
  then show ?thesis
    by (auto simp: lock_disciplined_def holder_after_append split: option.splits if_splits)
qed

section \<open>Rounding\<close>

text \<open>
  Rounding to nearest moves a number by at most \<open>unit_roundoff\<close> of its magnitude,
  keeps its sign, and leaves a binary64 number as it is.
\<close>

lemma round_even_cases:
  "round_even x = \<lfloor>x\<rfloor> \<and> x - of_int \<lfloor>x\<rfloor> \<le> 1 / 2
   \<or> round_even x = \<lfloor>x\<rfloor> + 1 \<and> 1 / 2 \<le> x - of_int \<lfloor>x\<rfloor>"
  by (auto simp: round_even_def Let_def)

lemma round_even_err: "\<bar>of_int (round_even x) - x\<bar> \<le> 1 / 2"
proof -
  have "of_int \<lfloor>x\<rfloor> \<le> x" "x < of_int \<lfloor>x\<rfloor> + 1" by linarith+
  then show ?thesis using round_even_cases [of x] by auto
qed

lemma round_even_of_int: "round_even (of_int m) = m"
  by (simp add: round_even_def)

lemma round_even_ge_floor: "\<lfloor>x\<rfloor> \<le> round_even x"
  using round_even_cases [of x] by auto

lemma round_even_le_ceiling: "round_even x \<le> \<lceil>x\<rceil>"
proof (cases "x = of_int \<lfloor>x\<rfloor>")
  case True
  then have "round_even x = \<lfloor>x\<rfloor>" by (metis round_even_of_int)
  then show ?thesis by (simp add: floor_le_ceiling)
next
  case False
  then have "\<lceil>x\<rceil> = \<lfloor>x\<rfloor> + 1" by (simp add: ceiling_altdef)
  then show ?thesis using round_even_cases [of x] by auto
qed

lemma round_even_ge: "of_int k \<le> x \<Longrightarrow> k \<le> round_even x"
  using round_even_ge_floor [of x] by (meson le_floor_iff order_trans)

lemma round_even_le: "x \<le> of_int k \<Longrightarrow> round_even x \<le> k"
  using round_even_le_ceiling [of x] by (meson ceiling_le_iff order_trans)

lemma pow2_pos: "0 < pow2 k"
  by (simp add: pow2_def)

lemma pow2_add: "pow2 (a + b) = pow2 a * pow2 b"
  by (simp add: pow2_def powr_add)

lemma pow2_nat: "pow2 (int n) = 2 ^ n"
  by (simp add: pow2_def powr_realpow)

lemma pow2_minus: "pow2 (- k) = 1 / pow2 k"
  by (simp add: pow2_def powr_minus field_simps)

lemma pow2_diff: "pow2 (a - b) = pow2 a / pow2 b"
  using pow2_add [of a "- b"] by (simp add: pow2_minus)

lemma pow2_mono: "a \<le> b \<Longrightarrow> pow2 a \<le> pow2 b"
  by (simp add: pow2_def)

lemma fl_zero: "fl 0 = 0"
  by (simp add: fl_def)

lemma binade:
  assumes "x \<noteq> 0"
  shows "pow2 \<lfloor>log 2 \<bar>x\<bar>\<rfloor> \<le> \<bar>x\<bar>"
    and "\<bar>x\<bar> < pow2 (\<lfloor>log 2 \<bar>x\<bar>\<rfloor> + 1)"
proof -
  have "0 < \<bar>x\<bar>" using assms by simp
  then have "2 powr of_int \<lfloor>log 2 \<bar>x\<bar>\<rfloor> \<le> \<bar>x\<bar>
      \<and> \<bar>x\<bar> < 2 powr of_int (\<lfloor>log 2 \<bar>x\<bar>\<rfloor> + 1)"
    using floor_log_eq_powr_iff [of "\<bar>x\<bar>" 2 "\<lfloor>log 2 \<bar>x\<bar>\<rfloor>"] by simp
  then show "pow2 \<lfloor>log 2 \<bar>x\<bar>\<rfloor> \<le> \<bar>x\<bar>"
    and "\<bar>x\<bar> < pow2 (\<lfloor>log 2 \<bar>x\<bar>\<rfloor> + 1)"
    unfolding pow2_def by simp_all
qed

lemma binade_unique:
  assumes "pow2 k \<le> \<bar>x\<bar>" and "\<bar>x\<bar> < pow2 (k + 1)"
  shows "\<lfloor>log 2 \<bar>x\<bar>\<rfloor> = k"
proof -
  have "0 < \<bar>x\<bar>" using assms(1) pow2_pos [of k] by linarith
  then show ?thesis
    using floor_log_eq_powr_iff [of "\<bar>x\<bar>" 2 k] assms unfolding pow2_def by simp
qed

lemma fl_in_binade:
  assumes "pow2 k \<le> \<bar>x\<bar>" and "\<bar>x\<bar> < pow2 (k + 1)"
  shows "fl x = of_int (round_even (x / pow2 (k - 52))) * pow2 (k - 52)"
proof -
  have "x \<noteq> 0" using assms(1) pow2_pos [of k] by auto
  then show ?thesis by (simp add: fl_def Let_def binade_unique [OF assms])
qed

lemma fl_error: "\<bar>fl x - x\<bar> \<le> \<bar>x\<bar> * unit_roundoff"
proof (cases "x = 0")
  case True
  then show ?thesis by (simp add: fl_def)
next
  case False
  define e where "e = \<lfloor>log 2 \<bar>x\<bar>\<rfloor>"
  define s where "s = pow2 (e - 52)"
  have s: "0 < s" by (simp add: s_def pow2_pos)
  have fx: "fl x = of_int (round_even (x / s)) * s"
    using False by (simp add: fl_def Let_def e_def s_def)
  have "\<bar>fl x - x\<bar> = \<bar>of_int (round_even (x / s)) - x / s\<bar> * s"
  proof -
    have "fl x - x = (of_int (round_even (x / s)) - x / s) * s"
      using s by (simp add: fx field_simps)
    then show ?thesis using s by (simp add: abs_mult)
  qed
  also have "\<dots> \<le> (1 / 2) * s"
    using round_even_err [of "x / s"] s by (intro mult_right_mono) simp_all
  also have "\<dots> = pow2 e / 2 ^ 53"
    unfolding s_def pow2_diff using pow2_nat [of 52] by simp
  also have "\<dots> \<le> \<bar>x\<bar> / 2 ^ 53"
    using binade(1) [OF False] by (simp add: e_def divide_right_mono)
  finally show ?thesis by (simp add: unit_roundoff_def)
qed

lemma fl_nonneg: "0 \<le> x \<Longrightarrow> 0 \<le> fl x"
proof (cases "x = 0")
  case True
  then show ?thesis by (simp add: fl_def)
next
  case False
  assume "0 \<le> x"
  then have "0 \<le> x / pow2 (\<lfloor>log 2 \<bar>x\<bar>\<rfloor> - 52)"
    using pow2_pos [of "\<lfloor>log 2 \<bar>x\<bar>\<rfloor> - 52"] by (intro divide_nonneg_pos)
  then have "0 \<le> round_even (x / pow2 (\<lfloor>log 2 \<bar>x\<bar>\<rfloor> - 52))"
    using round_even_ge [of 0] by simp
  then show ?thesis
    using False pow2_pos [of "\<lfloor>log 2 \<bar>x\<bar>\<rfloor> - 52"] by (simp add: fl_def Let_def)
qed

lemma unit_roundoff_bounds: "0 < unit_roundoff" "unit_roundoff < 1"
  by (simp_all add: unit_roundoff_def)

lemma fl_lower: "0 \<le> x \<Longrightarrow> x * (1 - unit_roundoff) \<le> fl x"
  using fl_error [of x] by (simp add: algebra_simps abs_le_iff)

lemma fl_upper: "0 \<le> x \<Longrightarrow> fl x * (1 - unit_roundoff) \<le> x"
proof -
  assume x: "0 \<le> x"
  have "fl x \<le> x * (1 + unit_roundoff)"
    using fl_error [of x] x by (simp add: algebra_simps abs_le_iff)
  then have "fl x * (1 - unit_roundoff) \<le> x * (1 + unit_roundoff) * (1 - unit_roundoff)"
    using unit_roundoff_bounds by (intro mult_right_mono) simp_all
  also have "\<dots> = x * (1 - unit_roundoff\<^sup>2)"
    by (simp add: algebra_simps power2_eq_square)
  also have "\<dots> \<le> x" using x by (simp add: mult_left_le)
  finally show ?thesis .
qed

lemma fl_pos: "0 < x \<Longrightarrow> 0 < fl x"
proof -
  assume x: "0 < x"
  have "0 < x * (1 - unit_roundoff)" using x unit_roundoff_bounds by simp
  also have "\<dots> \<le> fl x" using x by (intro fl_lower) simp
  finally show ?thesis .
qed

lemma fl_neg_lower: "x \<le> 0 \<Longrightarrow> x \<le> fl x * (1 - unit_roundoff)"
proof -
  assume x: "x \<le> 0"
  have "x * (1 + unit_roundoff) \<le> fl x"
    using fl_error [of x] x by (simp add: algebra_simps abs_le_iff)
  then have "x * (1 + unit_roundoff) * (1 - unit_roundoff) \<le> fl x * (1 - unit_roundoff)"
    using unit_roundoff_bounds by (intro mult_right_mono) simp_all
  moreover have "x * (1 + unit_roundoff) * (1 - unit_roundoff) = x * (1 - unit_roundoff\<^sup>2)"
    by (simp add: algebra_simps power2_eq_square)
  moreover have "x \<le> x * (1 - unit_roundoff\<^sup>2)"
    using x by (simp add: algebra_simps mult_nonneg_nonpos2)
  ultimately show ?thesis by linarith
qed

lemma fl_scaled:
  assumes "2 ^ 52 \<le> \<bar>x\<bar> * 2 ^ k" and "\<bar>x\<bar> * 2 ^ k < 2 ^ 53"
  shows "fl x = of_int (round_even (x * 2 ^ k)) / 2 ^ k"
proof -
  have p: "pow2 (52 - int k) = 2 ^ 52 / 2 ^ k" "pow2 (52 - int k + 1) = 2 ^ 53 / 2 ^ k"
    using pow2_diff [of 52 "int k"] pow2_diff [of 53 "int k"] pow2_nat [of 52] pow2_nat [of 53]
      pow2_nat [of k] by (simp_all add: algebra_simps)
  have u: "pow2 (52 - int k - 52) = 1 / 2 ^ k"
    using pow2_minus [of "int k"] pow2_nat [of k] by simp
  have "pow2 (52 - int k) \<le> \<bar>x\<bar>" "\<bar>x\<bar> < pow2 (52 - int k + 1)"
    using assms unfolding p by (simp_all add: field_simps)
  from fl_in_binade [OF this] show ?thesis unfolding u by simp
qed

lemma fl_idem: "fl (fl x) = fl x"
proof (cases "x = 0")
  case True
  then show ?thesis by (simp add: fl_def)
next
  case False
  define e where "e = \<lfloor>log 2 \<bar>x\<bar>\<rfloor>"
  define s where "s = pow2 (e - 52)"
  define t where "t = x / s"
  define m where "m = round_even t"
  have s: "0 < s" by (simp add: s_def pow2_pos)
  have fx: "fl x = of_int m * s"
    using False by (simp add: fl_def Let_def e_def s_def t_def m_def)
  have pe: "pow2 e = 2 ^ 52 * s" "pow2 (e + 1) = 2 ^ 53 * s"
    using pow2_add [of "e - 52" 52] pow2_add [of "e - 52" 53] pow2_nat [of 52] pow2_nat [of 53]
    by (simp_all add: s_def algebra_simps)
  have tb: "2 ^ 52 \<le> \<bar>t\<bar>" "\<bar>t\<bar> < 2 ^ 53"
    using binade [OF False] s unfolding e_def [symmetric] pe t_def
    by (simp_all add: abs_divide pos_le_divide_eq pos_divide_less_eq)
  have mb: "2 ^ 52 \<le> \<bar>m\<bar> \<and> \<bar>m\<bar> \<le> 2 ^ 53"
  proof (cases "0 \<le> t")
    case True
    with tb have a: "of_int (2 ^ 52) \<le> t" and b: "t \<le> of_int (2 ^ 53)" by simp_all
    have "2 ^ 52 \<le> m" unfolding m_def using a by (rule round_even_ge)
    moreover have "m \<le> 2 ^ 53" unfolding m_def using b by (rule round_even_le)
    ultimately show ?thesis by simp
  next
    case False
    with tb have a: "t \<le> of_int (- (2 ^ 52))" and b: "of_int (- (2 ^ 53)) \<le> t"
      by simp_all
    have "m \<le> - (2 ^ 52)" unfolding m_def using a by (rule round_even_le)
    moreover have "- (2 ^ 53) \<le> m" unfolding m_def using b by (rule round_even_ge)
    ultimately show ?thesis by simp
  qed
  have ay: "\<bar>of_int m * s\<bar> = of_int \<bar>m\<bar> * s" using s by (simp add: abs_mult)
  have m_lo: "(2::real) ^ 52 \<le> of_int \<bar>m\<bar>"
  proof -
    from mb have "(2::int) ^ 52 \<le> \<bar>m\<bar>" by (rule conjunct1)
    then have "real_of_int (2 ^ 52) \<le> real_of_int \<bar>m\<bar>" by (simp only: of_int_le_iff)
    then show ?thesis by simp
  qed
  show ?thesis
  proof (cases "\<bar>m\<bar> < 2 ^ 53")
    case True
    then have "real_of_int \<bar>m\<bar> < real_of_int (2 ^ 53)" by (simp only: of_int_less_iff)
    then have m_hi: "of_int \<bar>m\<bar> < (2::real) ^ 53" by simp
    have "pow2 e \<le> \<bar>of_int m * s\<bar>"
      unfolding ay pe using m_lo s by (intro mult_right_mono) simp_all
    moreover have "\<bar>of_int m * s\<bar> < pow2 (e + 1)"
      unfolding ay pe using m_hi s by (intro mult_strict_right_mono) simp_all
    ultimately have "fl (of_int m * s)
        = of_int (round_even (of_int m * s / pow2 (e - 52))) * pow2 (e - 52)"
      by (rule fl_in_binade)
    moreover have "of_int m * s / pow2 (e - 52) = of_int m" using s by (simp add: s_def)
    ultimately have "fl (of_int m * s) = of_int m * s"
      by (simp only: round_even_of_int s_def)
    then show ?thesis by (simp only: fx)
  next
    case False
    with mb have m53: "\<bar>m\<bar> = 2 ^ 53" by simp
    have "even \<bar>m\<bar>" unfolding m53 by simp
    then have "even m" by simp
    then have "m = 2 * (m div 2)" by simp
    then have "real_of_int m = real_of_int (2 * (m div 2))" by (rule arg_cong)
    then have half: "real_of_int m = 2 * of_int (m div 2)" by simp
    have p2: "pow2 (e + 1 + 1) = 2 * pow2 (e + 1)" "pow2 (e + 1 - 52) = 2 * s"
      using pow2_add [of "e + 1" 1] pow2_add [of "e - 52" 1] pow2_nat [of 1]
      by (simp_all add: s_def algebra_simps)
    have "real_of_int \<bar>m\<bar> = real_of_int (2 ^ 53)" by (simp only: m53)
    then have "real_of_int \<bar>m\<bar> = 2 ^ 53" by simp
    then have "\<bar>of_int m * s\<bar> = pow2 (e + 1)"
      unfolding ay pe by (simp only:)
    then have "pow2 (e + 1) \<le> \<bar>of_int m * s\<bar>" "\<bar>of_int m * s\<bar> < pow2 (e + 1 + 1)"
      using pow2_pos [of "e + 1"] unfolding p2 by simp_all
    then have "fl (of_int m * s)
        = of_int (round_even (of_int m * s / pow2 (e + 1 - 52))) * pow2 (e + 1 - 52)"
      by (rule fl_in_binade)
    moreover have "of_int m * s / pow2 (e + 1 - 52) = of_int (m div 2)"
      unfolding p2 half using s by simp
    ultimately have "fl (of_int m * s) = of_int (m div 2) * (2 * s)"
      by (simp only: round_even_of_int p2)
    also have "\<dots> = of_int m * s" unfolding half by simp
    finally show ?thesis by (simp only: fx)
  qed
qed


text \<open>Evaluating \<open>fl\<close> at a given number: scale, round, scale back.\<close>

lemma fl_eval:
  assumes "2 ^ 52 \<le> \<bar>x\<bar> * 2 ^ k" and "\<bar>x\<bar> * 2 ^ k < 2 ^ 53" and "round_even (x * 2 ^ k) = m"
  shows "fl x = of_int m / 2 ^ k"
  using fl_scaled [OF assms(1,2)] assms(3) by simp


lemma fl_abs_upper: "\<bar>fl x\<bar> \<le> \<bar>x\<bar> * (1 + unit_roundoff)"
proof -
  have "\<bar>fl x\<bar> \<le> \<bar>fl x - x\<bar> + \<bar>x\<bar>" by simp
  also have "\<dots> \<le> \<bar>x\<bar> * unit_roundoff + \<bar>x\<bar>" using fl_error [of x] by simp
  finally show ?thesis by (simp add: algebra_simps)
qed


section \<open>Tolerances\<close>

lemma v_bounds: "0 < 1 - unit_roundoff" "1 - unit_roundoff \<le> 1"
  using unit_roundoff_bounds by simp_all

lemma vpow_bounds: "0 < (1 - unit_roundoff) ^ k" "(1 - unit_roundoff) ^ k \<le> 1"
  using v_bounds by (simp_all add: power_le_one)

lemma vpow_mono: "j \<le> k \<Longrightarrow> (1 - unit_roundoff) ^ k \<le> (1 - unit_roundoff) ^ j"
  using v_bounds by (intro power_decreasing) simp_all

lemma near_nonneg: "near k x y \<Longrightarrow> 0 \<le> y \<Longrightarrow> 0 \<le> x"
proof -
  assume w: "near k x y" and y: "0 \<le> y"
  have "0 \<le> y * (1 - unit_roundoff) ^ k" using y vpow_bounds(1) [of k] by simp
  with w show ?thesis by (simp add: near_def le_near_def)
qed

lemma near_zero: "near k 0 0"
  by (simp add: near_def le_near_def)

lemma le_near_mono:
  assumes "le_near j x y" and "j \<le> k" and "0 \<le> x"
  shows "le_near k x y"
proof -
  have "x * (1 - unit_roundoff) ^ k \<le> x * (1 - unit_roundoff) ^ j"
    using assms(3) vpow_mono [OF assms(2)] by (intro mult_left_mono)
  with assms(1) show ?thesis by (simp add: le_near_def)
qed

lemma near_mono:
  assumes "near j x y" and "j \<le> k" and "0 \<le> y"
  shows "near k x y"
  using assms near_nonneg [OF assms(1,3)] by (auto simp: near_def intro: le_near_mono)

lemma near_fl:
  assumes "near k x y" and "0 \<le> y"
  shows "near (Suc k) (fl x) y"
proof -
  have x: "0 \<le> x" using assms by (rule near_nonneg)
  have lo: "y * (1 - unit_roundoff) ^ k \<le> x" and hi: "x * (1 - unit_roundoff) ^ k \<le> y"
    using assms(1) by (simp_all add: near_def le_near_def)
  have "y * (1 - unit_roundoff) ^ Suc k = (y * (1 - unit_roundoff) ^ k) * (1 - unit_roundoff)"
    by simp
  also have "\<dots> \<le> x * (1 - unit_roundoff)"
    using lo v_bounds by (intro mult_right_mono) simp_all
  also have "\<dots> \<le> fl x" using x by (rule fl_lower)
  finally have 1: "y * (1 - unit_roundoff) ^ Suc k \<le> fl x" .
  have "fl x * (1 - unit_roundoff) ^ Suc k = (fl x * (1 - unit_roundoff)) * (1 - unit_roundoff) ^ k"
    by simp
  also have "\<dots> \<le> x * (1 - unit_roundoff) ^ k"
    using fl_upper [OF x] vpow_bounds(1) [of k] by (intro mult_right_mono) simp_all
  also have "\<dots> \<le> y" by (rule hi)
  finally have 2: "fl x * (1 - unit_roundoff) ^ Suc k \<le> y" .
  from 1 2 show ?thesis by (simp add: near_def le_near_def)
qed

lemma near_add:
  assumes "near k x y" and "near k z w"
  shows "near k (x + z) (y + w)"
  using assms by (simp add: near_def le_near_def algebra_simps add_mono)

lemma near_exact: "0 \<le> x \<Longrightarrow> near k x x"
  using vpow_bounds(2) [of k] by (simp add: near_def le_near_def mult_left_le)

lemma near_divide:
  assumes "near k x y" and "0 < c"
  shows "near k (x / c) (y / c)"
proof -
  have lo: "y * (1 - unit_roundoff) ^ k \<le> x" and hi: "x * (1 - unit_roundoff) ^ k \<le> y"
    using assms(1) by (simp_all add: near_def le_near_def)
  have "y * (1 - unit_roundoff) ^ k / c \<le> x / c" "x * (1 - unit_roundoff) ^ k / c \<le> y / c"
    using lo hi assms(2) by (simp_all add: divide_right_mono)
  then show ?thesis by (simp add: near_def le_near_def)
qed

lemma near_mult:
  assumes "near j x y" and "near k z w" and "0 \<le> y" and "0 \<le> w"
  shows "near (j + k) (x * z) (y * w)"
proof -
  have x: "0 \<le> x" and z: "0 \<le> z"
    using assms by (auto intro: near_nonneg)
  have a: "y * (1 - unit_roundoff) ^ j \<le> x" "x * (1 - unit_roundoff) ^ j \<le> y"
    and b: "w * (1 - unit_roundoff) ^ k \<le> z" "z * (1 - unit_roundoff) ^ k \<le> w"
    using assms(1,2) by (simp_all add: near_def le_near_def)
  have "(y * (1 - unit_roundoff) ^ j) * (w * (1 - unit_roundoff) ^ k) \<le> x * z"
    using a(1) b(1) x z assms(3,4) vpow_bounds(1) [of j] vpow_bounds(1) [of k]
    by (intro mult_mono) simp_all
  moreover have "(x * (1 - unit_roundoff) ^ j) * (z * (1 - unit_roundoff) ^ k) \<le> y * w"
    using a(2) b(2) x z assms(3,4) vpow_bounds(1) [of j] vpow_bounds(1) [of k]
    by (intro mult_mono) simp_all
  ultimately show ?thesis
    by (simp add: near_def le_near_def power_add algebra_simps)
qed

lemma vpow_Bernoulli: "1 - real k * unit_roundoff \<le> (1 - unit_roundoff) ^ k"
  using Bernoulli_inequality [of "- unit_roundoff" k] unit_roundoff_bounds by simp

lemma near_relative:
  assumes "near k x y" and "0 \<le> y"
  shows "\<bar>x - y\<bar> \<le> real k * unit_roundoff * max x y"
proof -
  have x: "0 \<le> x" using assms by (rule near_nonneg)
  have lo: "y * (1 - unit_roundoff) ^ k \<le> x" and hi: "x * (1 - unit_roundoff) ^ k \<le> y"
    using assms(1) by (simp_all add: near_def le_near_def)
  have "y * (1 - real k * unit_roundoff) \<le> y * (1 - unit_roundoff) ^ k"
    using assms(2) vpow_Bernoulli [of k] by (intro mult_left_mono)
  with lo have 1: "y - x \<le> real k * unit_roundoff * y" by (simp add: algebra_simps)
  have "x * (1 - real k * unit_roundoff) \<le> x * (1 - unit_roundoff) ^ k"
    using x vpow_Bernoulli [of k] by (intro mult_left_mono)
  with hi have 2: "x - y \<le> real k * unit_roundoff * x" by (simp add: algebra_simps)
  have ku: "0 \<le> real k * unit_roundoff" using unit_roundoff_bounds by simp
  have "real k * unit_roundoff * y \<le> real k * unit_roundoff * max x y"
    "real k * unit_roundoff * x \<le> real k * unit_roundoff * max x y"
    using ku by (intro mult_left_mono; simp)+
  with 1 2 show ?thesis by linarith
qed


section \<open>The rounded statistics\<close>

text \<open>
  The counter, the minimum and the maximum are the same in the rounded and in the
  exact update; the two sums agree with the exact sums up to one rounding for each
  addition, and one more for the squares.
\<close>

lemma fresh_fields:
  assumes "fresh st"
  shows "total_time st = 0" "call_count st = 0" "min_time st = Infinity" "max_time st = 0"
    "sum_squares st = 0"
  using assms by (simp_all add: fresh_def scalars_def Stats_default_def)

lemma fresh_default: "fresh Stats_default"
  by (simp add: fresh_def)

lemma record_double_fields:
  "total_time (record_double acc st d) = fl (total_time st + d)"
  "call_count (record_double acc st d) = call_count st + 1"
  "min_time (record_double acc st d) = std_min (min_time st) d"
  "max_time (record_double acc st d) = std_max (max_time st) d"
  "sum_squares (record_double acc st d)
     = (if acc then fl (sum_squares st + d * d) else fl (sum_squares st + fl (d * d)))"
  "children (record_double acc st d) = children st"
  by (simp_all add: record_double_def)

lemma record_all_double_Nil: "record_all_double acc st [] = st"
  by (simp add: record_all_double_def)

lemma record_all_double_Cons:
  "record_all_double acc st (d # ds) = record_all_double acc (record_double acc st d) ds"
  by (simp add: record_all_double_def)

lemma record_all_double_snoc:
  "record_all_double acc st (ds @ [d]) = record_double acc (record_all_double acc st ds) d"
  by (simp add: record_all_double_def)

lemma double_agrees:
  assumes "call_count st = call_count st'" "min_time st = min_time st'" "max_time st = max_time st'"
  shows "call_count (record_all_double acc st ds) = call_count (record_all st' ds)
     \<and> min_time (record_all_double acc st ds) = min_time (record_all st' ds)
     \<and> max_time (record_all_double acc st ds) = max_time (record_all st' ds)"
  using assms
proof (induction ds arbitrary: st st')
  case Nil
  then show ?case by (simp add: record_all_double_Nil record_all_Nil)
next
  case (Cons d ds)
  show ?case
    unfolding record_all_double_Cons record_all_Cons
    by (rule Cons.IH) (simp_all add: record_double_def record_duration_def Cons.prems)
qed

lemma children_record_all_double: "children (record_all_double acc st ds) = children st"
  by (induction ds arbitrary: st)
     (simp_all add: record_all_double_Nil record_all_double_Cons record_double_def)

lemma total_record_all_double:
  assumes "total_time st = 0" and "\<forall>d\<in>set ds. 0 \<le> d"
  shows "near (length ds) (total_time (record_all_double acc st ds)) (sum_list ds)"
  using assms(2)
proof (induction ds rule: rev_induct)
  case Nil
  show ?case by (simp add: record_all_double_Nil assms(1) near_zero)
next
  case (snoc d ds)
  then have d: "0 \<le> d" and nn: "\<forall>x\<in>set ds. 0 \<le> x" by simp_all
  have s: "0 \<le> sum_list ds" using nn by (intro sum_list_nonneg) simp
  have "near (length ds) (total_time (record_all_double acc st ds) + d) (sum_list ds + d)"
    using snoc.IH [OF nn] near_exact [OF d] by (rule near_add)
  then have "near (Suc (length ds)) (fl (total_time (record_all_double acc st ds) + d))
      (sum_list ds + d)"
    using s d by (intro near_fl) simp_all
  then show ?case by (simp add: record_all_double_snoc record_double_def)
qed

lemma squares_record_all_double:
  assumes "sum_squares st = 0"
  shows "near (Suc (length ds)) (sum_squares (record_all_double acc st ds)) (\<Sum>d\<leftarrow>ds. d * d)"
proof (induction ds rule: rev_induct)
  case Nil
  show ?case by (simp add: record_all_double_Nil assms near_zero)
next
  case (snoc d ds)
  let ?q = "sum_squares (record_all_double acc st ds)"
  have q: "0 \<le> (\<Sum>d\<leftarrow>ds. d * d)" by (rule sum_list_nonneg) auto
  have sq: "0 \<le> d * d" by simp
  have tot: "0 \<le> (\<Sum>d\<leftarrow>ds. d * d) + d * d" using q sq by simp
  have "near (Suc (length ds)) (?q + d * d) ((\<Sum>d\<leftarrow>ds. d * d) + d * d)"
    using snoc.IH near_exact [OF sq] by (rule near_add)
  then have fused: "near (Suc (Suc (length ds))) (fl (?q + d * d)) ((\<Sum>d\<leftarrow>ds. d * d) + d * d)"
    using tot by (rule near_fl)
  have "near (Suc 0) (fl (d * d)) (d * d)"
    using near_exact [OF sq, of 0] sq by (rule near_fl)
  then have "near (Suc (length ds)) (fl (d * d)) (d * d)"
    by (rule near_mono) (simp_all add: sq)
  with snoc.IH have "near (Suc (length ds)) (?q + fl (d * d)) ((\<Sum>d\<leftarrow>ds. d * d) + d * d)"
    by (rule near_add)
  then have plain: "near (Suc (Suc (length ds))) (fl (?q + fl (d * d)))
      ((\<Sum>d\<leftarrow>ds. d * d) + d * d)"
    using tot by (rule near_fl)
  show ?case
    using fused plain by (cases acc) (simp_all add: record_all_double_snoc record_double_def)
qed

lemma Max_nonneg_list:
  assumes "ds \<noteq> []" and "\<forall>d\<in>set ds. (0::real) \<le> d"
  shows "Max (set (0 # ds)) = Max (set ds)"
proof -
  from assms obtain d where d: "d \<in> set ds" "0 \<le> d" by (cases ds) auto
  have "0 \<le> Max (set ds)" using d by (meson List.finite_set Max_ge order_trans)
  with assms(1) show ?thesis by (simp add: max_def)
qed

lemma double_stats:
  assumes "fresh st" and "ds \<noteq> []" and "\<forall>d\<in>set ds. 0 \<le> d"
  shows "call_count (record_all_double acc st ds) = length ds
     \<and> min_time (record_all_double acc st ds) = Finite (Min (set ds))
     \<and> max_time (record_all_double acc st ds) = Max (set ds)
     \<and> near (length ds) (total_time (record_all_double acc st ds)) (sum_list ds)
     \<and> near (length ds + 1) (sum_squares (record_all_double acc st ds)) (\<Sum>d\<leftarrow>ds. d * d)"
proof -
  note f = fresh_fields [OF assms(1)]
  note agree = double_agrees [where st = st and st' = st and ds = ds and acc = acc, OF refl refl refl]
  have "call_count (record_all_double acc st ds) = length ds"
    using agree by (simp add: call_count_record_all f)
  moreover have "min_time (record_all_double acc st ds) = Finite (Min (set ds))"
    using agree assms(2) by (simp add: min_time_record_all f)
  moreover have "max_time (record_all_double acc st ds) = Max (set ds)"
    using agree Max_nonneg_list [OF assms(2,3)] by (simp add: max_time_record_all f)
  moreover have "near (length ds) (total_time (record_all_double acc st ds)) (sum_list ds)"
    using f(1) assms(3) by (rule total_record_all_double)
  moreover have "near (length ds + 1) (sum_squares (record_all_double acc st ds)) (\<Sum>d\<leftarrow>ds. d * d)"
    using squares_record_all_double [OF f(5), of ds] by simp
  ultimately show ?thesis by blast
qed


text \<open>The average lies between the extremes, and the mean square bounds its square.\<close>

lemma sum_list_le_Max:
  assumes "ds \<noteq> []"
  shows "sum_list ds \<le> real (length ds) * Max (set ds)"
proof -
  have "sum_list ds \<le> real (length ds) * M" if "\<forall>d\<in>set ds. d \<le> M" for M :: real
    using that by (induction ds) (auto simp: algebra_simps)
  then show ?thesis by simp
qed

lemma sum_list_ge_Min:
  assumes "ds \<noteq> []"
  shows "real (length ds) * Min (set ds) \<le> sum_list ds"
proof -
  have "real (length ds) * m \<le> sum_list ds" if "\<forall>d\<in>set ds. m \<le> d" for m :: real
    using that by (induction ds) (auto simp: algebra_simps)
  then show ?thesis by simp
qed

lemma sum_list_squared: "(sum_list ds)\<^sup>2 \<le> real (length ds) * (\<Sum>d\<leftarrow>ds. d * d)"
proof (induction ds)
  case Nil
  show ?case by simp
next
  case (Cons d ds)
  show ?case
  proof (cases "ds = []")
    case True
    then show ?thesis by (simp add: power2_eq_square)
  next
    case False
    then have n: "0 < real (length ds)" by simp
    from variance_step [OF n Cons.IH, of d]
    show ?thesis by (simp add: algebra_simps)
  qed
qed

lemma avg_double_near:
  assumes "fresh st" and "ds \<noteq> []" and "\<forall>d\<in>set ds. 0 \<le> d"
  shows "near (length ds + 1) (avg_double (record_all_double acc st ds))
           (sum_list ds / real (length ds))"
proof -
  note c2 = double_stats [OF assms]
  have n: "0 < real (length ds)" using assms(2) by simp
  have s: "0 \<le> sum_list ds" using assms(3) by (intro sum_list_nonneg) simp
  have "near (length ds) (total_time (record_all_double acc st ds) / real (length ds))
      (sum_list ds / real (length ds))"
    using c2 n by (intro near_divide) simp_all
  then have "near (Suc (length ds)) (fl (total_time (record_all_double acc st ds) / real (length ds)))
      (sum_list ds / real (length ds))"
    using s n by (intro near_fl) simp_all
  then show ?thesis using c2 assms(2) by (simp add: avg_double_def)
qed


lemma variance_double_lower:
  assumes "fresh st" and "ds \<noteq> []" and "\<forall>d\<in>set ds. 0 \<le> d"
  shows "0 \<le> variance_double fused (record_all_double acc st ds)
               * (1 - unit_roundoff) ^ (2 * length ds + 4)
             + (\<Sum>d\<leftarrow>ds. d * d) / real (length ds)
               * (1 - (1 - unit_roundoff) ^ (3 * length ds + 5))"
proof -
  define N where "N = record_all_double acc st ds"
  define n where "n = length ds"
  define rn where "rn = real n"
  define v where "v = 1 - unit_roundoff"
  define Q where "Q = (\<Sum>d\<leftarrow>ds. d * d)"
  define S where "S = sum_list ds"
  define a where "a = fl (sum_squares N / rn)"
  define b where "b = (if fused then avg_double N * avg_double N
                       else fl (avg_double N * avg_double N))"
  note c2 = double_stats [OF assms, where acc = acc, folded N_def n_def Q_def S_def]
  have rn: "0 < rn" using assms(2) by (simp add: rn_def n_def)
  have Q: "0 \<le> Q" unfolding Q_def by (rule sum_list_nonneg) auto
  have S: "0 \<le> S" unfolding S_def using assms(3) by (intro sum_list_nonneg) simp
  have v: "0 < v" "v \<le> 1" using v_bounds by (simp_all add: v_def)
  have vp: "0 < v ^ k" "v ^ k \<le> 1" for k using v by (simp_all add: power_le_one)
  have cnt: "call_count N \<noteq> 0" "real (call_count N) = rn"
    using c2 assms(2) by (simp_all add: rn_def n_def)
  have var: "variance_double fused N = fl (a - b)"
    using cnt by (simp add: variance_double_def a_def b_def)
  have "near (n + 1) (sum_squares N / rn) (Q / rn)"
    using c2 rn by (intro near_divide) simp_all
  then have "near (Suc (n + 1)) a (Q / rn)"
    unfolding a_def using Q rn by (intro near_fl) simp_all
  then have a: "Q / rn * v ^ (n + 2) \<le> a"
    by (simp add: near_def le_near_def v_def)
  have av: "near (n + 1) (avg_double N) (S / rn)"
    using avg_double_near [OF assms] by (simp add: N_def n_def rn_def S_def)
  have mu: "0 \<le> S / rn" using S rn by simp
  have av2: "near ((n + 1) + (n + 1)) (avg_double N * avg_double N) (S / rn * (S / rn))"
    using av av mu mu by (rule near_mult)
  have mu2: "0 \<le> S / rn * (S / rn)" using mu by simp
  have "near (2 * n + 3) b (S / rn * (S / rn))"
  proof (cases fused)
    case True
    then show ?thesis
      unfolding b_def using near_mono [OF av2 _ mu2, of "2 * n + 3"] by simp
  next
    case False
    have "near (Suc ((n + 1) + (n + 1))) (fl (avg_double N * avg_double N)) (S / rn * (S / rn))"
      using av2 mu2 by (rule near_fl)
    moreover have "Suc ((n + 1) + (n + 1)) = 2 * n + 3" by simp
    ultimately show ?thesis using False by (simp only: b_def if_False)
  qed
  then have b1: "b * v ^ (2 * n + 3) \<le> S / rn * (S / rn)"
    by (simp add: near_def le_near_def v_def)
  have "S\<^sup>2 \<le> rn * Q"
    using sum_list_squared [of ds] by (simp add: S_def Q_def rn_def n_def)
  then have "S\<^sup>2 / (rn * rn) \<le> rn * Q / (rn * rn)"
    using rn by (intro divide_right_mono) simp_all
  then have "S / rn * (S / rn) \<le> Q / rn"
    using rn by (simp add: power2_eq_square)
  with b1 have b: "b * v ^ (2 * n + 3) \<le> Q / rn" by linarith
  have e1: "v ^ (3 * n + 5) = v ^ (n + 2) * v ^ (2 * n + 3)"
  proof -
    have "3 * n + 5 = (n + 2) + (2 * n + 3)" by simp
    then show ?thesis by (simp only: power_add)
  qed
  have e2: "v * v ^ (2 * n + 3) = v ^ (2 * n + 4)"
  proof -
    have "2 * n + 4 = Suc (2 * n + 3)" by simp
    then show ?thesis by (simp only: power_Suc)
  qed
  have "Q / rn * v ^ (3 * n + 5) = (Q / rn * v ^ (n + 2)) * v ^ (2 * n + 3)"
    unfolding e1 by (simp only: mult.assoc)
  also have "\<dots> \<le> a * v ^ (2 * n + 3)"
    using a vp(1) [of "2 * n + 3"] by (intro mult_right_mono) simp_all
  finally have X: "Q / rn * v ^ (3 * n + 5) - Q / rn \<le> (a - b) * v ^ (2 * n + 3)"
    using b by (simp add: algebra_simps)
  have Qn: "0 \<le> Q / rn" using Q rn by simp
  have goal: "0 \<le> fl (a - b) * v ^ (2 * n + 4) + Q / rn * (1 - v ^ (3 * n + 5))"
  proof (cases "0 \<le> a - b")
    case True
    then have "0 \<le> fl (a - b)" by (rule fl_nonneg)
    then have "0 \<le> fl (a - b) * v ^ (2 * n + 4)" using vp(1) [of "2 * n + 4"] by simp
    moreover have "0 \<le> Q / rn * (1 - v ^ (3 * n + 5))"
      using Qn vp(2) [of "3 * n + 5"] by (intro mult_nonneg_nonneg) simp_all
    ultimately show ?thesis by linarith
  next
    case False
    then have "a - b \<le> fl (a - b) * v" unfolding v_def by (intro fl_neg_lower) simp
    then have "(a - b) * v ^ (2 * n + 3) \<le> fl (a - b) * v * v ^ (2 * n + 3)"
      using vp(1) [of "2 * n + 3"] by (intro mult_right_mono) simp_all
    also have "\<dots> = fl (a - b) * v ^ (2 * n + 4)"
      unfolding e2 [symmetric] by (simp only: mult.assoc)
    finally show ?thesis using X by (simp add: algebra_simps)
  qed
  show ?thesis
    using goal unfolding var [symmetric] N_def n_def rn_def v_def Q_def .
qed


text \<open>A node with one recorded duration.\<close>

lemma single_record:
  assumes "fresh st" and "fl d = d"
  shows "total_time (record_double acc st d) = d" "call_count (record_double acc st d) = 1"
    "sum_squares (record_double acc st d) = fl (d * d)" "avg_double (record_double acc st d) = d"
proof -
  note f = fresh_fields [OF assms(1)]
  show t: "total_time (record_double acc st d) = d" by (simp add: record_double_fields f assms(2))
  show c: "call_count (record_double acc st d) = 1" by (simp add: record_double_fields f)
  show "sum_squares (record_double acc st d) = fl (d * d)"
    by (simp add: record_double_fields f fl_idem)
  show "avg_double (record_double acc st d) = d" by (simp add: avg_double_def t c assms(2))
qed

lemma single_variance_unfused:
  assumes "fresh st" and "fl d = d"
  shows "variance_double False (record_double acc st d) = 0"
  by (simp add: variance_double_def single_record [OF assms] fl_idem fl_zero)

lemma single_variance_fused:
  assumes "fresh st" and "fl d = d"
  shows "variance_double True (record_double acc st d) = fl (fl (d * d) - d * d)"
  by (simp add: variance_double_def single_record [OF assms] fl_idem)

lemma stddev_double_nonneg: "0 \<le> stddev_double fused st"
  by (simp add: stddev_double_def fl_nonneg std_max_def)


text \<open>The numbers met when \<^verbatim>\<open>0.1\<close> is recorded.\<close>

lemma fl_tenth: "fl tenth = tenth"
  by (rule trans [OF fl_eval [of tenth 56 7205759403792794]])
     (simp_all add: tenth_def round_even_def Let_def)

lemma fl_two_tenths: "fl (tenth + tenth) = tenth + tenth"
  by (rule trans [OF fl_eval [of "tenth + tenth" 55 7205759403792794]])
     (simp_all add: tenth_def round_even_def Let_def)

lemma fl_three_tenths: "fl (tenth + tenth + tenth) = 5404319552844596 / 18014398509481984"
  by (rule trans [OF fl_eval [of "tenth + tenth + tenth" 54 5404319552844596]])
     (simp_all add: tenth_def round_even_def Let_def)

lemma fl_third: "fl (5404319552844596 / 18014398509481984 / 3) = 7205759403792795 / 72057594037927936"
  by (rule trans [OF fl_eval [of "5404319552844596 / 18014398509481984 / 3" 56 7205759403792795]])
     (simp_all add: round_even_def Let_def)

lemma fl_tenth_squared: "fl (tenth * tenth) = 1441151880758559 / 144115188075855872"
  by (rule trans [OF fl_eval [of "tenth * tenth" 59 5764607523034236]])
     (simp_all add: tenth_def round_even_def Let_def)


section \<open>The claims\<close>

text \<open>
  C1 does not hold of the constructor. Constructing \<^verbatim>\<open>SectionProfiler("a")\<close> on thread 0
  in the initial state inserts a node into the root table, and the trace of the call
  is that access alone: the mutex is never taken, while the destructor and the
  report wrap their accesses in \<open>Lock\<close> and \<open>Unlock\<close>.
\<close>

theorem C1_ctor_unlocked:
  "SectionProfiler_ctor 0 ''a'' 0 profiler_init =
     Some (\<lparr>name = ''a'', start = 0, parent_stats = None, current_stats = [''a'']\<rparr>,
           example_open)
   \<and> lock_disciplined (trace profiler_init)
   \<and> root_stats profiler_init \<noteq> root_stats example_open
   \<and> trace example_open = [TreeAccess 0]
   \<and> \<not> lock_disciplined (trace example_open)"
  using ctor_example_open
  by (simp add: lock_disciplined_def profiler_init_def example_open_def)



text \<open>
  C3. In a state without dangling pointers the constructor succeeds and leaves its
  node in the tree. With an empty stack on the constructing thread the object has no
  parent and its node is the entry of the root table under its name. With the object
  \<open>a\<close> on top of that stack the parent pointer is \<open>a\<close>'s node, and the new node is the
  entry under its name in the child table of \<open>a\<close>'s node: its pointer extends \<open>a\<close>'s by
  the name, so it has at least two steps and is not an entry of the root table.
\<close>

theorem C3_parent_resolution:
  assumes "ptrs_valid s"
  shows "\<exists>this s'. SectionProfiler_ctor tid nm now s = Some (this, s')
     \<and> deref (root_stats s') (current_stats this) \<noteq> None
     \<and> (case active_stack s tid of
          [] \<Rightarrow> parent_stats this = None \<and> current_stats this = [nm]
                \<and> map_of (root_stats s') nm = deref (root_stats s') (current_stats this)
        | a # _ \<Rightarrow> parent_stats this = Some (current_stats a)
                \<and> current_stats this = current_stats a @ [nm]
                \<and> 2 \<le> length (current_stats this)
                \<and> (\<exists>ast. deref (root_stats s') (current_stats a) = Some ast
                      \<and> map_of (children ast) nm = deref (root_stats s') (current_stats this)))"
proof -
  from ctor_total [OF assms] obtain this s' where
    c: "SectionProfiler_ctor tid nm now s = Some (this, s')" by blast
  from c obtain m where
    par: "parent_stats this =
       (case active_stack s tid of [] \<Rightarrow> None | x # _ \<Rightarrow> Some (current_stats x))"
    and r: "resolve (parent_stats this) nm (root_stats s) = Some (current_stats this, m)"
    and m: "root_stats s' = m"
    by (elim ctor_SomeE) simp
  have cur: "deref (root_stats s') (current_stats this) \<noteq> None"
    unfolding m using r by (rule resolve_cur)
  have "case active_stack s tid of
          [] \<Rightarrow> parent_stats this = None \<and> current_stats this = [nm]
                \<and> map_of (root_stats s') nm = deref (root_stats s') (current_stats this)
        | a # _ \<Rightarrow> parent_stats this = Some (current_stats a)
                \<and> current_stats this = current_stats a @ [nm]
                \<and> 2 \<le> length (current_stats this)
                \<and> (\<exists>ast. deref (root_stats s') (current_stats a) = Some ast
                      \<and> map_of (children ast) nm = deref (root_stats s') (current_stats this))"
  proof (cases "active_stack s tid")
    case Nil
    with par have p: "parent_stats this = None" by simp
    with r have "current_stats this = [nm]" by (simp add: resolve_def)
    with p Nil show ?thesis by simp
  next
    case (Cons a rest)
    with par have p: "parent_stats this = Some (current_stats a)" by simp
    from r p obtain ast0 where a0: "deref (root_stats s) (current_stats a) = Some ast0"
      and cs: "current_stats this = current_stats a @ [nm]"
      by (auto simp: resolve_def split: option.splits)
    from a0 have ne: "current_stats a \<noteq> []" by (rule deref_nonempty)
    have "deref m (current_stats a) \<noteq> None"
      using r a0 by (intro resolve_keeps [OF r]) simp
    then obtain ast where ast: "deref m (current_stats a) = Some ast" by blast
    have "deref m (current_stats this) = map_of (children ast) nm"
      unfolding cs deref_snoc [OF ne] ast by simp
    moreover have "2 \<le> length (current_stats this)"
      using ne unfolding cs by (cases "current_stats a") simp_all
    ultimately show ?thesis using Cons p cs ast m by simp
  qed
  with c cur show ?thesis by blast
qed

theorem C3_parent_resolution_witness:
  "ptrs_valid example_open
   \<and> (\<exists>this s'. SectionProfiler_ctor 0 ''X'' 1 example_open = Some (this, s')
        \<and> deref (root_stats s') (current_stats this) \<noteq> None
        \<and> parent_stats this = Some [''a'']
        \<and> current_stats this = [''a'', ''X'']
        \<and> (\<exists>ast. deref (root_stats s') [''a''] = Some ast
              \<and> map_of (children ast) ''X'' = deref (root_stats s') (current_stats this)))"
proof -
  have v: "ptrs_valid example_open"
    using ctor_example_open ptrs_valid_init by (rule ctor_ptrs_valid)
  have st: "active_stack example_open 0 =
      [\<lparr>name = ''a'', start = 0, parent_stats = None, current_stats = [''a'']\<rparr>]"
    by (simp add: example_open_def)
  show ?thesis
    using C3_parent_resolution [OF v, of 0 "''X''" 1] v unfolding st by auto
qed

text \<open>
  C4. Once a parent and a name have been resolved to a node, resolving them again in
  any later state of the process gives the same pointer and changes nothing in the
  tree; a pointer that names a node keeps naming a node in every later state; two
  sections entered one after the other with the same name on the same thread, the
  stack as before, use the same node, the second entry creates nothing, and after
  both the node counts two calls more; and no table of a reachable tree holds two
  nodes under one name.
\<close>

theorem C4_same_node:
  "(resolve parent nm m = Some (cur, root_stats s1) \<and> later s1 s2 \<longrightarrow>
      resolve parent nm (root_stats s2) = Some (cur, root_stats s2))
   \<and> (later s1 s2 \<and> deref (root_stats s1) q \<noteq> None \<longrightarrow> deref (root_stats s2) q \<noteq> None)
   \<and> (SectionProfiler_ctor tid nm a s = Some (A, sa)
      \<and> SectionProfiler_dtor tid A b sa = Some sb
      \<and> SectionProfiler_ctor tid nm c sb = Some (B, sc)
      \<and> SectionProfiler_dtor tid B d sc = Some sd \<longrightarrow>
        current_stats B = current_stats A \<and> root_stats sc = root_stats sb
        \<and> (\<exists>st1 st4. deref (root_stats sa) (current_stats A) = Some st1
              \<and> deref (root_stats sd) (current_stats A) = Some st4
              \<and> call_count st4 = call_count st1 + 2))
   \<and> (reachable s \<longrightarrow> distinct_keys (root_stats s))"
proof (intro conjI impI)
  assume "resolve parent nm m = Some (cur, root_stats s1) \<and> later s1 s2"
  then show "resolve parent nm (root_stats s2) = Some (cur, root_stats s2)"
    using resolve_later by blast
next
  assume "later s1 s2 \<and> deref (root_stats s1) q \<noteq> None"
  then show "deref (root_stats s2) q \<noteq> None"
    using later_keeps by blast
next
  assume h: "SectionProfiler_ctor tid nm a s = Some (A, sa)
      \<and> SectionProfiler_dtor tid A b sa = Some sb
      \<and> SectionProfiler_ctor tid nm c sb = Some (B, sc)
      \<and> SectionProfiler_dtor tid B d sc = Some sd"
  then have t: "current_stats B = current_stats A \<and> root_stats sc = root_stats sb
     \<and> (\<exists>st1 st4. deref (root_stats sa) (current_stats A) = Some st1
           \<and> deref (root_stats sd) (current_stats A) = Some st4
           \<and> call_count st4 = call_count st1 + 2)"
    using twice_same_node [of tid nm a s A sa b sb c B sc d sd] by blast
  from t show "current_stats B = current_stats A" by simp
  from t show "root_stats sc = root_stats sb" by simp
  from t show "\<exists>st1 st4. deref (root_stats sa) (current_stats A) = Some st1
           \<and> deref (root_stats sd) (current_stats A) = Some st4
           \<and> call_count st4 = call_count st1 + 2" by simp
next
  assume "reachable s"
  then show "distinct_keys (root_stats s)" by (rule reachable_distinct_keys)
qed

theorem C4_same_node_witness:
  "later example_open example_flat
   \<and> resolve None ''a'' [] = Some ([''a''], root_stats example_open)
   \<and> resolve None ''a'' (root_stats example_flat) = Some ([''a''], root_stats example_flat)
   \<and> deref (root_stats example_open) [''a''] \<noteq> None
   \<and> deref (root_stats example_flat) [''a''] \<noteq> None
   \<and> (\<exists>B sc sd. SectionProfiler_ctor 0 ''a'' 5 example_flat = Some (B, sc)
         \<and> SectionProfiler_dtor 0 B 9 sc = Some sd
         \<and> current_stats B = [''a'']
         \<and> root_stats sc = root_stats example_flat
         \<and> (\<exists>st4. deref (root_stats sd) [''a''] = Some st4 \<and> call_count st4 = 2))
   \<and> reachable example_flat
   \<and> distinct_keys (root_stats example_flat)"
proof -
  let ?A = "\<lparr>name = ''a'', start = 0, parent_stats = None, current_stats = [''a'']\<rparr>"
  let ?B = "\<lparr>name = ''a'', start = 5, parent_stats = None, current_stats = [''a'']\<rparr>"
  let ?sc = "example_flat\<lparr>active_stack := (\<lambda>_. [])(0 := [?B]),
                trace := trace example_flat @ [TreeAccess 0]\<rparr>"
  let ?sd = "\<lparr>root_stats = [(''a'', Stats 7 2 (Finite 3) 4 25 [])],
             active_stack = (\<lambda>_. []),
             trace = trace example_flat @ [TreeAccess 0, Lock 0, TreeAccess 0, Unlock 0]\<rparr>"
  have l: "later example_open example_flat"
    using later_refl dtor_example_flat by (rule later_dtor)
  have r: "resolve None ''a'' [] = Some ([''a''], root_stats example_open)"
    by (simp add: resolve_def subscript_def example_open_def)
  have o: "deref (root_stats example_open) [''a''] \<noteq> None"
    by (simp add: example_open_def)
  have c2: "SectionProfiler_ctor 0 ''a'' 5 example_flat = Some (?B, ?sc)"
    by (simp add: example_flat_def eval_defs)
  have d2: "SectionProfiler_dtor 0 ?B 9 ?sc = Some ?sd"
    by (simp add: example_flat_def eval_defs)
  have a: "deref (root_stats example_open) [''a''] = Some Stats_default"
    by (simp add: example_open_def)
  note inst = C4_same_node [of None "''a''" "[]" "[''a'']" example_open example_flat "[''a'']"
      0 0 profiler_init ?A example_open 3 example_flat 5 ?B ?sc 9 ?sd]
  from inst l r have 1:
    "resolve None ''a'' (root_stats example_flat) = Some ([''a''], root_stats example_flat)"
    by blast
  from inst l o have 2: "deref (root_stats example_flat) [''a''] \<noteq> None" by blast
  from inst ctor_example_open dtor_example_flat c2 d2
  have 3: "current_stats ?B = current_stats ?A \<and> root_stats ?sc = root_stats example_flat
     \<and> (\<exists>st1 st4. deref (root_stats example_open) (current_stats ?A) = Some st1
           \<and> deref (root_stats ?sd) (current_stats ?A) = Some st4
           \<and> call_count st4 = call_count st1 + 2)"
    by blast
  then have 4: "\<exists>st4. deref (root_stats ?sd) [''a''] = Some st4 \<and> call_count st4 = 2"
    using a by (auto simp: Stats_default_def)
  from C4_same_node [where s = example_flat] reachable_example_flat
  have 5: "distinct_keys (root_stats example_flat)" by blast
  have ex: "\<exists>B sc sd. SectionProfiler_ctor 0 ''a'' 5 example_flat = Some (B, sc)
         \<and> SectionProfiler_dtor 0 B 9 sc = Some sd
         \<and> current_stats B = [''a'']
         \<and> root_stats sc = root_stats example_flat
         \<and> (\<exists>st4. deref (root_stats sd) [''a''] = Some st4 \<and> call_count st4 = 2)"
    using c2 d2 3 4 by (intro exI [of _ ?B] exI [of _ ?sc] exI [of _ ?sd]) simp
  show ?thesis
    using l r 1 o 2 ex reachable_example_flat 5 by blast
qed

text \<open>
  C5, as amended. Let \<open>N \<ge> 1\<close> non-negative durations be recorded into a freshly created
  node, every operation rounded. Then \<open>call_count\<close> is positive, \<open>min_time\<close> is the least
  duration, and the average lies between the minimum and the maximum up to rounding:
  for the quotient \<open>total_time / call_count\<close> up to \<open>N\<close> roundings, for the average that
  line 88 computes up to \<open>N + 1\<close>. The variance that line 89 computes, contracted or
  not, is not below \<open>0\<close> by more than a multiple of the mean square of the durations
  that is of the order of \<open>(3 * N + 5) * unit_roundoff\<close>. The durations and their number
  are arbitrary, so this holds after every update.
\<close>

theorem C5_invariant_up_to_rounding:
  assumes "fresh st" and "ds \<noteq> []" and "\<forall>d\<in>set ds. 0 \<le> d"
  shows "0 < call_count (record_all_double acc st ds)
     \<and> min_time (record_all_double acc st ds) = Finite (Min (set ds))
     \<and> le_near (length ds) (Min (set ds))
          (total_time (record_all_double acc st ds)
             / real (call_count (record_all_double acc st ds)))
     \<and> le_near (length ds)
          (total_time (record_all_double acc st ds)
             / real (call_count (record_all_double acc st ds)))
          (max_time (record_all_double acc st ds))
     \<and> le_near (length ds + 1) (Min (set ds)) (avg_double (record_all_double acc st ds))
     \<and> le_near (length ds + 1) (avg_double (record_all_double acc st ds))
          (max_time (record_all_double acc st ds))
     \<and> 0 \<le> variance_double fused (record_all_double acc st ds)
               * (1 - unit_roundoff) ^ (2 * length ds + 4)
             + (\<Sum>d\<leftarrow>ds. d * d) / real (length ds)
               * (1 - (1 - unit_roundoff) ^ (3 * length ds + 5))"
proof -
  let ?N = "record_all_double acc st ds"
  note c2 = double_stats [OF assms, where acc = acc]
  note av = avg_double_near [OF assms, where acc = acc]
  have n: "0 < real (length ds)" using assms(2) by simp
  have cnt: "real (call_count ?N) = real (length ds)" using c2 by simp
  have vp: "0 < (1 - unit_roundoff) ^ k" for k by (rule vpow_bounds)
  have lo: "Min (set ds) \<le> sum_list ds / real (length ds)"
    using sum_list_ge_Min [OF assms(2)] n by (simp add: pos_le_divide_eq mult.commute)
  have hi: "sum_list ds / real (length ds) \<le> Max (set ds)"
    using sum_list_le_Max [OF assms(2)] n by (simp add: pos_divide_le_eq mult.commute)
  have mx: "max_time ?N = Max (set ds)" using c2 by simp
  have q: "near (length ds) (total_time ?N / real (length ds)) (sum_list ds / real (length ds))"
    using c2 n by (intro near_divide) simp_all
  have below: "le_near k (Min (set ds)) x"
    if "near k x (sum_list ds / real (length ds))" for k x
  proof -
    have "Min (set ds) * (1 - unit_roundoff) ^ k
        \<le> sum_list ds / real (length ds) * (1 - unit_roundoff) ^ k"
      using lo vp [of k] by (intro mult_right_mono) simp_all
    also have "\<dots> \<le> x" using that by (simp add: near_def le_near_def)
    finally show ?thesis by (simp add: le_near_def)
  qed
  have above: "le_near k x (max_time ?N)"
    if "near k x (sum_list ds / real (length ds))" for k x
  proof -
    have "x * (1 - unit_roundoff) ^ k \<le> sum_list ds / real (length ds)"
      using that by (simp add: near_def le_near_def)
    also have "\<dots> \<le> max_time ?N" using hi mx by simp
    finally show ?thesis by (simp add: le_near_def)
  qed
  have 0: "0 < call_count ?N" using c2 assms(2) by simp
  have 1: "min_time ?N = Finite (Min (set ds))" using c2 by simp
  have 2: "le_near (length ds) (Min (set ds)) (total_time ?N / real (call_count ?N))"
    unfolding cnt using q by (rule below)
  have 3: "le_near (length ds) (total_time ?N / real (call_count ?N)) (max_time ?N)"
    unfolding cnt using q by (rule above)
  have 4: "le_near (length ds + 1) (Min (set ds)) (avg_double ?N)"
    using av by (rule below)
  have 5: "le_near (length ds + 1) (avg_double ?N) (max_time ?N)"
    using av by (rule above)
  from 0 1 2 3 4 5 variance_double_lower [OF assms, of fused acc] show ?thesis by blast
qed

theorem C5_invariant_up_to_rounding_witness:
  "fresh Stats_default \<and> [1, 2 :: real] \<noteq> [] \<and> 0 \<le> (1::real) \<and> 0 \<le> (2::real)
   \<and> 0 < call_count (record_all_double False Stats_default [1, 2])
   \<and> min_time (record_all_double False Stats_default [1, 2]) = Finite 1
   \<and> le_near 2 1 (total_time (record_all_double False Stats_default [1, 2])
                    / real (call_count (record_all_double False Stats_default [1, 2])))
   \<and> le_near 2 (total_time (record_all_double False Stats_default [1, 2])
                    / real (call_count (record_all_double False Stats_default [1, 2])))
        (max_time (record_all_double False Stats_default [1, 2]))
   \<and> le_near 3 1 (avg_double (record_all_double False Stats_default [1, 2]))
   \<and> le_near 3 (avg_double (record_all_double False Stats_default [1, 2]))
        (max_time (record_all_double False Stats_default [1, 2]))
   \<and> 0 \<le> variance_double False (record_all_double False Stats_default [1, 2])
             * (1 - unit_roundoff) ^ 8
           + 5 / 2 * (1 - (1 - unit_roundoff) ^ 11)"
proof -
  have h: "\<forall>d\<in>set [1, 2 :: real]. 0 \<le> d" by simp
  have ne: "[1, 2 :: real] \<noteq> []" by simp
  show ?thesis
    using C5_invariant_up_to_rounding [OF fresh_default ne h, where acc = False and fused = False]
      fresh_default
    by (simp add: numeral_2_eq_2 numeral_3_eq_3)
qed

text \<open>
  C5 as stated, with the average exactly between the minimum and the maximum, fails:
  after three durations of \<^verbatim>\<open>0.1\<close> the stored total is \<^verbatim>\<open>0.30000000000000004\<close>, and both
  the quotient \<open>total_time / call_count\<close> and the average of line 88, which is
  \<^verbatim>\<open>0.10000000000000002\<close>, are larger than the stored maximum \<^verbatim>\<open>0.1\<close>.
\<close>

theorem C5_average_above_maximum:
  "fl tenth = tenth
   \<and> 0 \<le> tenth
   \<and> call_count (record_all_double False Stats_default [tenth, tenth, tenth]) = 3
   \<and> total_time (record_all_double False Stats_default [tenth, tenth, tenth])
       = 5404319552844596 / 18014398509481984
   \<and> max_time (record_all_double False Stats_default [tenth, tenth, tenth]) = tenth
   \<and> avg_double (record_all_double False Stats_default [tenth, tenth, tenth])
       = 7205759403792795 / 72057594037927936
   \<and> max_time (record_all_double False Stats_default [tenth, tenth, tenth])
       < avg_double (record_all_double False Stats_default [tenth, tenth, tenth])
   \<and> max_time (record_all_double False Stats_default [tenth, tenth, tenth])
       < total_time (record_all_double False Stats_default [tenth, tenth, tenth])
         / real (call_count (record_all_double False Stats_default [tenth, tenth, tenth]))
   \<and> \<not> node_invariant (record_all_double False Stats_default [tenth, tenth, tenth])"
proof -
  define N where "N = record_all_double False Stats_default [tenth, tenth, tenth]"
  have pos: "0 \<le> tenth" by (simp add: tenth_def)
  have N: "N = record_double False (record_double False (record_double False Stats_default tenth) tenth) tenth"
    by (simp add: N_def record_all_double_def)
  have t1: "total_time (record_double False Stats_default tenth) = tenth"
    by (simp add: record_double_fields Stats_default_def fl_tenth)
  have "total_time (record_double False (record_double False Stats_default tenth) tenth)
      = fl (total_time (record_double False Stats_default tenth) + tenth)"
    by (rule record_double_fields(1))
  also have "\<dots> = fl (tenth + tenth)" by (simp only: t1)
  also have "\<dots> = tenth + tenth" by (rule fl_two_tenths)
  finally have t2:
    "total_time (record_double False (record_double False Stats_default tenth) tenth) = tenth + tenth" .
  have "total_time N
      = fl (total_time (record_double False (record_double False Stats_default tenth) tenth) + tenth)"
    unfolding N by (rule record_double_fields(1))
  also have "\<dots> = fl (tenth + tenth + tenth)" by (simp only: t2)
  also have "\<dots> = 5404319552844596 / 18014398509481984" by (rule fl_three_tenths)
  finally have t3: "total_time N = 5404319552844596 / 18014398509481984" .
  have c: "call_count N = 3"
    by (simp add: N record_double_fields Stats_default_def)
  have m: "max_time N = tenth"
    using pos by (simp add: N record_double_fields Stats_default_def std_max_def)
  have a: "avg_double N = 7205759403792795 / 72057594037927936"
    unfolding avg_double_def t3 c using fl_third by simp
  have lt: "max_time N < avg_double N" unfolding m a by (simp add: tenth_def)
  have lt': "max_time N < total_time N / real (call_count N)"
    unfolding m t3 c by (simp add: tenth_def)
  have "\<not> node_invariant N"
    using lt' c by (simp add: node_invariant_def)
  with fl_tenth pos c t3 m a lt lt' show ?thesis unfolding N_def by blast
qed

text \<open>
  C6, as amended. The standard deviation of line 90 is never negative: it is the
  rounded square root of the variance of line 89 clamped at \<open>0\<close> from below, and it is
  \<open>0\<close> for a node without calls. For a freshly created node with one recorded duration
  \<open>d\<close>: when line 89 is evaluated operation by operation, the variance and the standard
  deviation are exactly \<open>0\<close>; when the compiler contracts line 89, the variance is the
  rounding error of \<open>d * d\<close>, rounded, of magnitude at most
  \<open>d * d * unit_roundoff * (1 + unit_roundoff)\<close>.
\<close>

theorem C6_stddev_double:
  "0 \<le> stddev_double fused st
   \<and> stddev_double fused st = fl (sqrt (max 0 (variance_double fused st)))
   \<and> (call_count st = 0 \<longrightarrow> stddev_double fused st = 0)
   \<and> (fresh st0 \<and> fl d = d \<longrightarrow>
        variance_double False (record_double acc st0 d) = 0
        \<and> stddev_double False (record_double acc st0 d) = 0
        \<and> \<bar>variance_double True (record_double acc st0 d)\<bar>
             \<le> d * d * unit_roundoff * (1 + unit_roundoff))"
proof -
  have 1: "0 \<le> stddev_double fused st" by (rule stddev_double_nonneg)
  have 2: "stddev_double fused st = fl (sqrt (max 0 (variance_double fused st)))"
    by (simp add: stddev_double_def std_max_eq_max)
  have 3: "stddev_double fused st = 0" if "call_count st = 0"
    using that by (simp add: stddev_double_def variance_double_def std_max_def fl_zero)
  have 4: "variance_double False (record_double acc st0 d) = 0
        \<and> stddev_double False (record_double acc st0 d) = 0
        \<and> \<bar>variance_double True (record_double acc st0 d)\<bar>
             \<le> d * d * unit_roundoff * (1 + unit_roundoff)"
    if h: "fresh st0 \<and> fl d = d"
  proof -
    from h have f: "fresh st0" and d: "fl d = d" by simp_all
    have a: "variance_double False (record_double acc st0 d) = 0"
      using f d by (rule single_variance_unfused)
    then have b: "stddev_double False (record_double acc st0 d) = 0"
      by (simp add: stddev_double_def std_max_def fl_zero)
    have "\<bar>fl (fl (d * d) - d * d)\<bar> \<le> \<bar>fl (d * d) - d * d\<bar> * (1 + unit_roundoff)"
      by (rule fl_abs_upper)
    also have "\<dots> \<le> (\<bar>d * d\<bar> * unit_roundoff) * (1 + unit_roundoff)"
      using fl_error [of "d * d"] unit_roundoff_bounds by (intro mult_right_mono) simp_all
    finally have c: "\<bar>variance_double True (record_double acc st0 d)\<bar>
             \<le> d * d * unit_roundoff * (1 + unit_roundoff)"
      unfolding single_variance_fused [OF f d] by (simp add: abs_mult)
    from a b c show ?thesis by blast
  qed
  from 1 2 3 4 show ?thesis by blast
qed

theorem C6_stddev_double_witness:
  "call_count Stats_default = 0
   \<and> fresh Stats_default \<and> fl tenth = tenth
   \<and> 0 \<le> stddev_double True Stats_default
   \<and> stddev_double True Stats_default = 0
   \<and> variance_double False (record_double False Stats_default tenth) = 0
   \<and> stddev_double False (record_double False Stats_default tenth) = 0
   \<and> \<bar>variance_double True (record_double False Stats_default tenth)\<bar>
        \<le> tenth * tenth * unit_roundoff * (1 + unit_roundoff)"
proof -
  have c: "call_count Stats_default = 0" by (simp add: Stats_default_def)
  show ?thesis
    using C6_stddev_double [where fused = True and st = Stats_default and ?st0.0 = Stats_default and d = tenth and acc = False] c fresh_default fl_tenth
    by blast
qed

text \<open>
  C6 as stated, the variance exactly \<open>0\<close> for one recorded duration, fails when line 89
  is contracted: for the single duration \<^verbatim>\<open>0.1\<close> the stored \<open>sum_squares\<close> is the rounded
  square, which is larger than the exact square that the fused operation subtracts, so
  the variance and the standard deviation are positive.
\<close>

theorem C6_fused_counterexample:
  "fl tenth = tenth
   \<and> call_count (record_double True Stats_default tenth) = 1
   \<and> sum_squares (record_double True Stats_default tenth) = 1441151880758559 / 144115188075855872
   \<and> variance_double True (record_double True Stats_default tenth)
       = fl (1441151880758559 / 144115188075855872 - tenth * tenth)
   \<and> 0 < variance_double True (record_double True Stats_default tenth)
   \<and> 0 < stddev_double True (record_double True Stats_default tenth)"
proof -
  note s = single_record [OF fresh_default fl_tenth, of True]
  have q: "sum_squares (record_double True Stats_default tenth)
      = 1441151880758559 / 144115188075855872"
    unfolding s(3) by (rule fl_tenth_squared)
  have v: "variance_double True (record_double True Stats_default tenth)
       = fl (1441151880758559 / 144115188075855872 - tenth * tenth)"
    unfolding single_variance_fused [OF fresh_default fl_tenth, of True] fl_tenth_squared ..
  have "(0::real) < 1441151880758559 / 144115188075855872 - tenth * tenth"
    by (simp add: tenth_def)
  then have p: "0 < variance_double True (record_double True Stats_default tenth)"
    unfolding v by (rule fl_pos)
  then have "0 < sqrt (std_max 0 (variance_double True (record_double True Stats_default tenth)))"
    by (simp add: std_max_def)
  then have "0 < stddev_double True (record_double True Stats_default tenth)"
    unfolding stddev_double_def by (rule fl_pos)
  with fl_tenth s(2) q v p show ?thesis by blast
qed

text \<open>
  C7. The lines of the report are exactly the lines of the nodes of the tree, each
  rendered against the baseline of the node that owns its table: none for a node of
  the root table, the parent's total otherwise. The percentage of a line is \<open>100\<close>
  when there is no parent or the parent's total is not positive, and
  \<open>total_time / parent total * 100\<close> otherwise; so every root node shows \<open>100\<close>.
\<close>

theorem C7_pct:
  "(Line r \<in> set (fst (report tid s)) \<longleftrightarrow>
      (\<exists>d nm st parent. occurs (root_stats s) None d nm st parent
         \<and> r = stat_line (spaces d) nm st (baseline_of parent)))
   \<and> row_pct (stat_line indent nm st (baseline_of parent)) =
       (case parent of
          None \<Rightarrow> 100
        | Some pst \<Rightarrow> if total_time pst \<le> 0 then 100
                      else total_time st / total_time pst * 100)
   \<and> (occurs m None d' nm' st' parent' \<longrightarrow>
        (case parent' of
           None \<Rightarrow> d' = 0 \<and> (nm', st') \<in> set m
         | Some pst \<Rightarrow> 0 < d' \<and> (nm', st') \<in> set (children pst)))"
proof -
  have own: "(d' = 0 \<and> parent' = None \<and> (nm', st') \<in> set m)
      \<or> (0 < d' \<and> (\<exists>pst. parent' = Some pst \<and> (nm', st') \<in> set (children pst)))"
    if "occurs m None d' nm' st' parent'"
    using that by (rule occurs_owner)
  have "Line r \<in> set (fst (report tid s)) \<longleftrightarrow> r \<in> set (print_stats (root_stats s) [] 0)"
    by (auto simp: report_def)
  moreover have "baseline_of None = 0" by (simp add: baseline_of_def)
  ultimately have "Line r \<in> set (fst (report tid s)) \<longleftrightarrow>
      (\<exists>d nm st parent. occurs (root_stats s) None d nm st parent
         \<and> r = stat_line ([] @ spaces d) nm st (baseline_of parent))"
    using print_stats_rows [of None 0 r "root_stats s" "[]"] by simp
  moreover have "row_pct (stat_line indent nm st (baseline_of parent)) =
       (case parent of
          None \<Rightarrow> 100
        | Some pst \<Rightarrow> if total_time pst \<le> 0 then 100
                      else total_time st / total_time pst * 100)"
    by (simp add: stat_line_def pct_of_def baseline_of_def not_le split: option.split)
  moreover have "occurs m None d' nm' st' parent' \<longrightarrow>
        (case parent' of
           None \<Rightarrow> d' = 0 \<and> (nm', st') \<in> set m
         | Some pst \<Rightarrow> 0 < d' \<and> (nm', st') \<in> set (children pst))"
    using own by (auto split: option.split)
  ultimately show ?thesis by simp
qed

theorem C7_pct_witness:
  "occurs (root_stats example_nested) None 1 ''inner'' (Stats 10 2 (Finite 5) 5 50 [])
      (Some (Stats 10 1 (Finite 10) 10 100 [(''inner'', Stats 10 2 (Finite 5) 5 50 [])]))
   \<and> Line (stat_line (spaces 1) ''inner'' (Stats 10 2 (Finite 5) 5 50 []) 10)
        \<in> set (fst (report 0 example_nested))
   \<and> row_pct (stat_line (spaces 1) ''inner'' (Stats 10 2 (Finite 5) 5 50 []) 10) = 100
   \<and> (''inner'', Stats 10 2 (Finite 5) 5 50 [])
        \<in> set (children (Stats 10 1 (Finite 10) 10 100 [(''inner'', Stats 10 2 (Finite 5) 5 50 [])]))"
proof -
  have o: "occurs (root_stats example_nested) None 1 ''inner'' (Stats 10 2 (Finite 5) 5 50 [])
      (Some (Stats 10 1 (Finite 10) 10 100 [(''inner'', Stats 10 2 (Finite 5) 5 50 [])]))"
    unfolding One_nat_def
    by (rule occurs_below [of "''outer''"
          "Stats 10 1 (Finite 10) 10 100 [(''inner'', Stats 10 2 (Finite 5) 5 50 [])]"])
       (simp_all add: example_nested_def occurs_here)
  have b: "baseline_of
      (Some (Stats 10 1 (Finite 10) 10 100 [(''inner'', Stats 10 2 (Finite 5) 5 50 [])])) = 10"
    by (simp add: baseline_of_def)
  note inst = C7_pct [of "stat_line (spaces 1) ''inner'' (Stats 10 2 (Finite 5) 5 50 []) 10"
        0 example_nested "spaces 1" "''inner''" "Stats 10 2 (Finite 5) 5 50 []"
        "Some (Stats 10 1 (Finite 10) 10 100 [(''inner'', Stats 10 2 (Finite 5) 5 50 [])])"
        "root_stats example_nested" 1 "''inner''" "Stats 10 2 (Finite 5) 5 50 []"
        "Some (Stats 10 1 (Finite 10) 10 100 [(''inner'', Stats 10 2 (Finite 5) 5 50 [])])"]
  have "\<exists>d nm st parent. occurs (root_stats example_nested) None d nm st parent
         \<and> stat_line (spaces 1) ''inner'' (Stats 10 2 (Finite 5) 5 50 []) 10
             = stat_line (spaces d) nm st (baseline_of parent)"
    using o b by (metis (no_types))
  with inst have "Line (stat_line (spaces 1) ''inner'' (Stats 10 2 (Finite 5) 5 50 []) 10)
        \<in> set (fst (report 0 example_nested))"
    by blast
  moreover from inst b
  have "row_pct (stat_line (spaces 1) ''inner'' (Stats 10 2 (Finite 5) 5 50 []) 10) = 100"
    by simp
  moreover from inst o
  have "(''inner'', Stats 10 2 (Finite 5) 5 50 [])
        \<in> set (children (Stats 10 1 (Finite 10) 10 100 [(''inner'', Stats 10 2 (Finite 5) 5 50 [])]))"
    by simp
  ultimately show ?thesis using o by blast
qed

text \<open>
  C8. A node of a reachable tree without recorded calls still has the infinite
  minimum it was created with, and its rendered line shows \<open>0\<close> for the average,
  the minimum, the maximum and the standard deviation.
\<close>

theorem C8_empty_node:
  assumes "reachable s" and "occurs (root_stats s) parent0 d nm st parent"
    and "call_count st = 0"
  shows "min_time st = Infinity
     \<and> row_avg (stat_line indent nm st parent_time) = 0
     \<and> row_min (stat_line indent nm st parent_time) = 0
     \<and> row_max (stat_line indent nm st parent_time) = 0
     \<and> row_stddev (stat_line indent nm st parent_time) = 0"
proof -
  from rendered_history [OF assms(1,2)] obtain ds where
    ds: "scalars st = scalars (record_all Stats_default ds)" by blast
  from history_count [OF ds] assms(3) have "ds = []" by simp
  with ds have "min_time st = Infinity" "max_time st = 0"
    by (simp_all add: scalars_def record_all_def Stats_default_def)
  with assms(3) show ?thesis
    by (simp add: stat_line_def avg_of_def min_shown_def stddev_of_def variance_of_def std_max_def)
qed

theorem C8_empty_node_witness:
  "reachable example_open
   \<and> occurs (root_stats example_open) None 0 ''a'' Stats_default None
   \<and> call_count Stats_default = 0
   \<and> min_time Stats_default = Infinity
   \<and> row_avg (stat_line [] ''a'' Stats_default 0) = 0
   \<and> row_min (stat_line [] ''a'' Stats_default 0) = 0
   \<and> row_max (stat_line [] ''a'' Stats_default 0) = 0
   \<and> row_stddev (stat_line [] ''a'' Stats_default 0) = 0"
proof -
  have o: "occurs (root_stats example_open) None 0 ''a'' Stats_default None"
    by (rule occurs_here) (simp add: example_open_def)
  have c: "call_count Stats_default = 0" by (simp add: Stats_default_def)
  show ?thesis
    using C8_empty_node [OF reachable_example_open o c, of "[]" 0] reachable_example_open o c
    by simp
qed



text \<open>
  C10. A destructor that runs leaves the keys of the root table and the keys of
  every node's child table as they were, leaves the five statistics of every node
  other than its own as they were, replaces its own node by the updated one, whose
  child table is the old one, pops one object from the stack of its thread, and
  leaves the stack of every other thread as it was.
\<close>

theorem C10_dtor_frame:
  assumes "SectionProfiler_dtor tid this end_time s = Some s'"
  shows "map fst (root_stats s') = map fst (root_stats s)
    \<and> (\<forall>q. map_option child_keys (deref (root_stats s') q)
             = map_option child_keys (deref (root_stats s) q))
    \<and> (\<forall>q. q \<noteq> current_stats this \<longrightarrow>
             map_option scalars (deref (root_stats s') q)
             = map_option scalars (deref (root_stats s) q))
    \<and> (\<exists>st. deref (root_stats s) (current_stats this) = Some st
          \<and> deref (root_stats s') (current_stats this)
              = Some (record_duration st (end_time - start this))
          \<and> children (record_duration st (end_time - start this)) = children st)
    \<and> (\<exists>x. active_stack s tid = x # active_stack s' tid)
    \<and> (\<forall>t. t \<noteq> tid \<longrightarrow> active_stack s' t = active_stack s t)"
proof -
  let ?f = "\<lambda>st. record_duration st (end_time - start this)"
  from assms obtain st x rest where
    st: "deref (root_stats s) (current_stats this) = Some st"
    and stack: "active_stack s tid = x # rest"
    and s': "s' = s\<lparr>root_stats := modify_at (current_stats this) ?f (root_stats s),
                     active_stack := (active_stack s)(tid := rest),
                     trace := trace s @ [Lock tid, TreeAccess tid, Unlock tid]\<rparr>"
    by (elim dtor_SomeE)
  have m: "root_stats s' = modify_at (current_stats this) ?f (root_stats s)"
    by (simp add: s')
  have keep: "\<And>st. children (?f st) = children st" by (simp add: record_duration_def)
  have keys: "\<And>st. child_keys (?f st) = child_keys st" by (simp add: child_keys_def keep)
  have 1: "map fst (root_stats s') = map fst (root_stats s)"
    unfolding m by (rule map_fst_modify_at)
  have 2: "map_option child_keys (deref (root_stats s') q)
             = map_option child_keys (deref (root_stats s) q)" for q
    unfolding m view_modify_at_keep [OF shallow_child_keys, of ?f, OF keep]
    by (simp add: keys)
  have 3: "map_option scalars (deref (root_stats s') q)
             = map_option scalars (deref (root_stats s) q)" if "q \<noteq> current_stats this" for q
    unfolding m view_modify_at_keep [OF shallow_scalars, of ?f, OF keep]
    using that by simp
  have 4: "deref (root_stats s') (current_stats this) = Some (?f st)"
    unfolding m deref_modify_at_same st by simp
  have 5: "active_stack s tid = x # active_stack s' tid" by (simp add: s' stack)
  have 6: "active_stack s' t = active_stack s t" if "t \<noteq> tid" for t
    using that by (simp add: s')
  show ?thesis using 1 2 3 st 4 keep 5 6 by blast
qed

theorem C10_dtor_frame_witness:
  "SectionProfiler_dtor 0
     \<lparr>name = ''a'', start = 0, parent_stats = None, current_stats = [''a'']\<rparr> 3 example_open
     = Some example_flat
   \<and> map fst (root_stats example_flat) = map fst (root_stats example_open)
   \<and> map_option child_keys (deref (root_stats example_flat) [''a''])
       = map_option child_keys (deref (root_stats example_open) [''a''])
   \<and> [''b''] \<noteq> [''a'']
   \<and> map_option scalars (deref (root_stats example_flat) [''b''])
       = map_option scalars (deref (root_stats example_open) [''b''])
   \<and> (\<exists>st. deref (root_stats example_open) [''a''] = Some st
         \<and> deref (root_stats example_flat) [''a''] = Some (record_duration st 3))
   \<and> (\<exists>x. active_stack example_open 0 = x # active_stack example_flat 0)
   \<and> (1::nat) \<noteq> 0
   \<and> active_stack example_flat 1 = active_stack example_open 1"
proof -
  note inst = C10_dtor_frame [OF dtor_example_flat, simplified SectionProfiler.simps]
  note a = inst [THEN conjunct1]
  note b = inst [THEN conjunct2, THEN conjunct1, THEN spec, of "[''a'']"]
  note c = inst [THEN conjunct2, THEN conjunct2, THEN conjunct1, THEN spec, of "[''b'']"]
  note d = inst [THEN conjunct2, THEN conjunct2, THEN conjunct2, THEN conjunct1]
  note e = inst [THEN conjunct2, THEN conjunct2, THEN conjunct2, THEN conjunct2, THEN conjunct1]
  note f = inst [THEN conjunct2, THEN conjunct2, THEN conjunct2, THEN conjunct2, THEN conjunct2,
      THEN spec, of 1]
  have ne: "[''b''] \<noteq> [''a'']" by simp
  have n: "(1::nat) \<noteq> 0" by simp
  have 3: "map_option scalars (deref (root_stats example_flat) [''b''])
       = map_option scalars (deref (root_stats example_open) [''b''])"
    using c ne by (rule mp)
  have 4: "\<exists>st. deref (root_stats example_open) [''a''] = Some st
         \<and> deref (root_stats example_flat) [''a''] = Some (record_duration st 3)"
  proof -
    from d obtain st where "deref (root_stats example_open) [''a''] = Some st"
      "deref (root_stats example_flat) [''a''] = Some (record_duration st (3 - 0))" by blast
    then show ?thesis by (intro exI [of _ st]) (simp del: deref.simps)
  qed
  have 6: "active_stack example_flat 1 = active_stack example_open 1"
    using f n by (rule mp)
  show ?thesis
    by (intro conjI) (fact dtor_example_flat a b ne 3 4 e n 6)+
qed

end
